theory Spec2Isabelle
  imports Main "HOL-Library.Multiset"
begin

section \<open>Python values\<close>

text \<open>
  A Python \<open>str\<close> is a sequence of Unicode code points, so it is modelled as a list of
  naturals; \<open>str\<close> embeds an ASCII literal. Exceptions are values of \<open>py_error\<close>, and a
  function that can raise returns \<open>py_error + 'a\<close>.
\<close>

type_synonym pystr = "nat list"

definition str :: "string \<Rightarrow> pystr" where
  "str s = map of_char s"

datatype py_error = IndexError | KeyError | ValueError | AttributeError | TypeError

text \<open>\<open>s.replace(old, new)\<close>: every non-overlapping occurrence, scanning from the left.\<close>

function py_replace :: "pystr \<Rightarrow> pystr \<Rightarrow> pystr \<Rightarrow> pystr" where
  "py_replace old new [] = []"
| "py_replace old new (c # cs) =
     (if old \<noteq> [] \<and> take (length old) (c # cs) = old
      then new @ py_replace old new (drop (length old) (c # cs))
      else c # py_replace old new cs)"
  by pat_completeness auto
termination
  by (relation "measure (\<lambda>(old, new, s). length s)") auto

text \<open>\<open>sep.join(xs)\<close>.\<close>

fun py_join :: "pystr \<Rightarrow> pystr list \<Rightarrow> pystr" where
  "py_join sep [] = []"
| "py_join sep [x] = x"
| "py_join sep (x # y # ys) = x @ sep @ py_join sep (y # ys)"

text \<open>
  The characters that \<open>str.split()\<close> and \<open>str.strip()\<close> treat as whitespace
  (\<open>str.isspace\<close>).
\<close>

definition py_isspace :: "nat \<Rightarrow> bool" where
  "py_isspace c \<longleftrightarrow>
     (9 \<le> c \<and> c \<le> 13) \<or> (28 \<le> c \<and> c \<le> 32) \<or> c = 133 \<or> c = 160 \<or> c = 5760 \<or>
     (8192 \<le> c \<and> c \<le> 8202) \<or> c = 8232 \<or> c = 8233 \<or> c = 8239 \<or> c = 8287 \<or> c = 12288"

text \<open>
  \<open>s.split()\<close> with no argument: the maximal runs of non-whitespace characters. The
  accumulator \<open>cur\<close> holds the run being read.
\<close>

fun py_split_aux :: "pystr \<Rightarrow> pystr \<Rightarrow> pystr list" where
  "py_split_aux cur [] = (if cur = [] then [] else [cur])"
| "py_split_aux cur (c # cs) =
     (if py_isspace c
      then (if cur = [] then py_split_aux [] cs else cur # py_split_aux [] cs)
      else py_split_aux (cur @ [c]) cs)"

definition py_split :: "pystr \<Rightarrow> pystr list" where
  "py_split s = py_split_aux [] s"

text \<open>\<open>str(n)\<close> for a non-negative integer: its decimal digits.\<close>

fun digits_of :: "nat \<Rightarrow> pystr" where
  "digits_of n = (if n < 10 then [48 + n] else digits_of (n div 10) @ [48 + n mod 10])"

declare digits_of.simps [simp del]

text \<open>
  A \<open>dict\<close> (and the attributes of an element) as an association list with distinct
  keys in insertion order: \<open>d[k] = v\<close> keeps the place of a key that is present and
  appends a new one; \<open>d[k]\<close> is \<open>map_of d k\<close>, a \<open>KeyError\<close> when it is \<open>None\<close>.
\<close>

fun dict_set :: "'k \<Rightarrow> 'v \<Rightarrow> ('k \<times> 'v) list \<Rightarrow> ('k \<times> 'v) list" where
  "dict_set k v [] = [(k, v)]"
| "dict_set k v (p # ps) = (if fst p = k then (k, v) # ps else p # dict_set k v ps)"

text \<open>\<open>d1 == d2\<close> for two such dicts: the same keys with the same values.\<close>

definition dict_eq :: "('k \<times> 'v) list \<Rightarrow> ('k \<times> 'v) list \<Rightarrow> bool" where
  "dict_eq a b \<longleftrightarrow>
     length a = length b \<and> list_all (\<lambda>p. map_of b (fst p) = Some (snd p)) a"

section \<open>Element trees\<close>

text \<open>
  An \<open>lxml\<close> element: its tag in Clark notation (\<open>{namespace}local\<close>), its attributes
  in document order, its text (\<open>None\<close> when absent), its children and its tail. Only
  element nodes are modelled (no comments or processing instructions).
\<close>

datatype xml =
  Elem (tag: pystr) (attrib: "(pystr \<times> pystr) list") (text_of: "pystr option")
       (children: "xml list") (tail: "pystr option")

definition tei_ns :: pystr where
  "tei_ns = str ''http://www.tei-c.org/ns/1.0''"

definition xml_ns :: pystr where
  "xml_ns = str ''http://www.w3.org/XML/1998/namespace''"

text \<open>\<open>'{%s}name' % tei_ns\<close>: the tag of the TEI element \<open>name\<close>.\<close>

definition tei :: "string \<Rightarrow> pystr" where
  "tei name = str ''{'' @ tei_ns @ str ''}'' @ str name"

text \<open>\<open>tag.replace('{%s}' % tei_ns, '')\<close>.\<close>

definition raw_tag :: "pystr \<Rightarrow> pystr" where
  "raw_tag t = py_replace (str ''{'' @ tei_ns @ str ''}'') [] t"

text \<open>\<open>et.Element(tag)\<close>: a fresh element with no attributes, text, children or tail.\<close>

definition Element :: "pystr \<Rightarrow> xml" where
  "Element t = Elem t [] None [] None"

text \<open>\<open>el.get(k)\<close> and \<open>el.set(k, v)\<close>; setting an existing attribute keeps its place.\<close>

definition el_get :: "xml \<Rightarrow> pystr \<Rightarrow> pystr option" where
  "el_get e k = map_of (attrib e) k"

definition el_set :: "xml \<Rightarrow> pystr \<Rightarrow> pystr \<Rightarrow> xml" where
  "el_set e k v = Elem (tag e) (dict_set k v (attrib e)) (text_of e) (children e) (tail e)"

text \<open>Replacing the children of an element (appending to a fresh element, or moving out).\<close>

definition with_children :: "xml \<Rightarrow> xml list \<Rightarrow> xml" where
  "with_children e cs = Elem (tag e) (attrib e) (text_of e) cs (tail e)"

text \<open>The proper descendants of an element, in document order.\<close>

fun descendants :: "xml \<Rightarrow> xml list" where
  "descendants (Elem t a x cs y) = concat (map (\<lambda>c. c # descendants c) cs)"

text \<open>
  The XPath queries of the source: \<open>el.xpath('.//tei:name')\<close> selects the proper
  descendants with that tag, \<open>xml.xpath('//tei:name')\<close> every such element of the
  document whose root is given.
\<close>

definition xpath_desc :: "string \<Rightarrow> xml \<Rightarrow> xml list" where
  "xpath_desc name e = filter (\<lambda>d. tag d = tei name) (descendants e)"

definition xpath_all :: "string \<Rightarrow> xml \<Rightarrow> xml list" where
  "xpath_all name root = filter (\<lambda>d. tag d = tei name) (root # descendants root)"

section \<open>tei_segmenter\<close>

text \<open>Tags segmented with the next tag rather than the preceding one.\<close>

definition prefix_tags :: "pystr set" where
  "prefix_tags = {str ''divGen''}"

text \<open>
  The local variables of \<open>tei_segmenter.segment\<close>: the counters per substantive tag, the
  queue for the current segment, its type and index, the positioning state, and the
  children appended to the new body so far.
\<close>

record seg_state =
  substantive_indices :: "pystr \<rightharpoonup> nat"
  segment_elements :: "xml list"
  segment_type :: pystr
  segment_n :: pystr
  pos :: int
  segmented_body :: "xml list"

definition seg_init :: seg_state where
  "seg_init = \<lparr>substantive_indices = Map.empty, segment_elements = [], segment_type = [],
     segment_n = [], pos = 1, segmented_body = []\<rparr>"

text \<open>The \<open>seg\<close> element sealed at a boundary.\<close>

definition make_seg :: "pystr \<Rightarrow> pystr \<Rightarrow> xml list \<Rightarrow> xml" where
  "make_seg ty n els = Elem (tei ''seg'') [(str ''type'', ty), (str ''n'', n)] None els None"

text \<open>One iteration of the loop over \<open>body.getchildren()\<close>, for the ignored tag set \<open>T\<close>.\<close>

definition segment_step :: "pystr set \<Rightarrow> seg_state \<Rightarrow> xml \<Rightarrow> seg_state" where
  "segment_step T st child =
     (let rt = raw_tag (tag child);
          k = (case substantive_indices st rt of None \<Rightarrow> 0 | Some j \<Rightarrow> j + 1);
          child_pos = (if rt \<notin> T then 0 else if rt \<in> prefix_tags then 1 else - 1);
          st1 = (if rt \<notin> T
                 then (let st0 = st\<lparr>substantive_indices := (substantive_indices st)(rt \<mapsto> k)\<rparr>
                       in if segment_type st0 = []
                          then st0\<lparr>segment_type := rt, segment_n := digits_of k\<rparr>
                          else st0)
                 else st);
          st2 = (if child_pos > pos st1 \<or> (child_pos = 0 \<and> pos st1 = 0)
                 then st1\<lparr>segmented_body := segmented_body st1 @
                              [make_seg (segment_type st1) (segment_n st1) (segment_elements st1)],
                          segment_elements := [],
                          segment_type := (if rt \<notin> T then rt else []),
                          segment_n := (if rt \<notin> T then digits_of k else [])\<rparr>
                 else st1)
      in st2\<lparr>segment_elements := segment_elements st2 @ [child], pos := child_pos\<rparr>)"

fun segment_loop :: "pystr set \<Rightarrow> seg_state \<Rightarrow> xml list \<Rightarrow> seg_state" where
  "segment_loop T st [] = st"
| "segment_loop T st (c # cs) = segment_loop T (segment_step T st c) cs"

text \<open>
  \<open>tei_segmenter.segment\<close> on the children of the body: the children of the body that
  replaces it. Whatever is still queued when the loop ends stays in the old body, which
  is removed from the document.
\<close>

definition segment :: "pystr set \<Rightarrow> xml list \<Rightarrow> xml list" where
  "segment T body = segmented_body (segment_loop T seg_init body)"

text \<open>\<open>tei_segmenter.desegment\<close> on the children of the body.\<close>

fun desegment :: "xml list \<Rightarrow> xml list" where
  "desegment [] = []"
| "desegment (c # cs) =
     (if raw_tag (tag c) = str ''seg'' then children c @ desegment cs else c # desegment cs)"

text \<open>\<open>str(i)\<close> and \<open>int(s)\<close>.\<close>

definition py_str_int :: "int \<Rightarrow> pystr" where
  "py_str_int i = (if i < 0 then 45 # digits_of (nat (- i)) else digits_of (nat i))"

definition is_digit :: "nat \<Rightarrow> bool" where
  "is_digit c \<longleftrightarrow> 48 \<le> c \<and> c \<le> 57"

fun parse_digits :: "nat \<Rightarrow> pystr \<Rightarrow> nat option" where
  "parse_digits acc [] = Some acc"
| "parse_digits acc [c] = (if is_digit c then Some (10 * acc + (c - 48)) else None)"
| "parse_digits acc (c # d # ds) =
     (if is_digit c then parse_digits (10 * acc + (c - 48)) (d # ds)
      else if c = 95 \<and> is_digit d then parse_digits (10 * acc + (d - 48)) ds
      else None)"

definition parse_nat :: "pystr \<Rightarrow> nat option" where
  "parse_nat s = (case s of [] \<Rightarrow> None
                  | c # cs \<Rightarrow> if is_digit c then parse_digits (c - 48) cs else None)"

definition py_strip :: "pystr \<Rightarrow> pystr" where
  "py_strip s = rev (dropWhile py_isspace (rev (dropWhile py_isspace s)))"

definition py_int :: "pystr \<Rightarrow> py_error + int" where
  "py_int s =
     (case py_strip s of
        [] \<Rightarrow> Inl ValueError
      | c # cs \<Rightarrow>
          (case (if c = 45 \<or> c = 43 then parse_nat cs else parse_nat (c # cs)) of
             None \<Rightarrow> Inl ValueError
           | Some n \<Rightarrow> Inr (if c = 45 then - int n else int n)))"

text \<open>\<open>sub in s\<close> and \<open>s.index(sub)\<close>: the first position where \<open>sub\<close> starts.\<close>

fun py_find :: "pystr \<Rightarrow> pystr \<Rightarrow> nat option" where
  "py_find sub [] = (if sub = [] then Some 0 else None)"
| "py_find sub (c # cs) =
     (if take (length sub) (c # cs) = sub then Some 0
      else map_option Suc (py_find sub cs))"

text \<open>\<open>xs[xs.index(old)] = new\<close> for a list that contains \<open>old\<close>.\<close>

fun replace_first :: "'a \<Rightarrow> 'a \<Rightarrow> 'a list \<Rightarrow> 'a list" where
  "replace_first old new [] = []"
| "replace_first old new (x # xs) =
     (if x = old then new # xs else x # replace_first old new xs)"

text \<open>\<open>xs[xs.index(x):]\<close> for a list that contains \<open>x\<close>.\<close>

definition from_first :: "'a \<Rightarrow> 'a list \<Rightarrow> 'a list" where
  "from_first x xs = dropWhile (\<lambda>y. y \<noteq> x) xs"


section \<open>tei_labeler: citation indices\<close>

definition div_abbreviations :: "(pystr \<times> pystr) list" where
  "div_abbreviations =
     [(str ''book'', str ''B''), (str ''incipit'', str ''incipit''),
      (str ''explicit'', str ''explicit''), (str ''chapter'', str ''K''),
      (str ''verse'', str ''V''), (str ''w'', str ''U'')]"

text \<open>The fields of a labeler: \<open>__init__\<close> sets both to empty.\<close>

record lab_state =
  div_hierarchy :: "pystr list"
  div_indices :: "(pystr \<times> pystr) list"

definition lab_init :: lab_state where
  "lab_init = \<lparr>div_hierarchy = [], div_indices = []\<rparr>"

text \<open>The \<open>divGen\<close> branch of \<open>add_indices\<close>.\<close>

definition divgen_update :: "lab_state \<Rightarrow> xml \<Rightarrow> py_error + lab_state" where
  "divgen_update st e =
     (case el_get e (str ''type'') of
        None \<Rightarrow> Inr st
      | Some div_type \<Rightarrow>
          (let n0 = (case el_get e (str ''n'') of None \<Rightarrow> [] | Some n \<Rightarrow> n);
               special = (div_type = str ''incipit'' \<or> div_type = str ''explicit'')
           in case (if special then Inr []
                    else (case map_of div_abbreviations div_type of
                            None \<Rightarrow> Inl KeyError
                          | Some ab \<Rightarrow>
                              (case py_find ab n0 of
                                 None \<Rightarrow> Inr n0
                               | Some i \<Rightarrow> Inr (drop (i + 1) n0)))) of
                Inl err \<Rightarrow> Inl err
              | Inr div_n \<Rightarrow>
                  (let h = div_hierarchy st;
                       h1 = (if special
                             then (if str ''chapter'' \<in> set h
                                   then replace_first (str ''chapter'') div_type h
                                   else h @ [div_type])
                             else h);
                       h2 = (if div_type = str ''chapter''
                             then (if str ''incipit'' \<in> set h1
                                   then replace_first (str ''incipit'') div_type h1
                                   else if str ''explicit'' \<in> set h1
                                   then replace_first (str ''explicit'') div_type h1
                                   else h1)
                             else h1);
                       h3 = (if div_type \<notin> set h2 then h2 @ [div_type] else h2);
                       d1 = dict_set div_type div_n (div_indices st);
                       d2 = foldl (\<lambda>d other. dict_set other (str ''0'') d) d1
                              (drop 1 (from_first div_type h3))
                   in Inr \<lparr>div_hierarchy = h3, div_indices = d2\<rparr>)))"

text \<open>
  \<open>if 'w' not in self.div_indices: ...\<close>, shared by the word and the apparatus branch.
\<close>

definition ensure_w :: "lab_state \<Rightarrow> lab_state" where
  "ensure_w st =
     (if map_of (div_indices st) (str ''w'') = None
      then \<lparr>div_hierarchy = div_hierarchy st @ [str ''w''],
            div_indices = dict_set (str ''w'') (str ''0'') (div_indices st)\<rparr>
      else st)"

text \<open>\<open>d['w'] = str(int(d['w']) + k)\<close>.\<close>

definition bump_w :: "int \<Rightarrow> (pystr \<times> pystr) list \<Rightarrow> py_error + (pystr \<times> pystr) list" where
  "bump_w k d =
     (case map_of d (str ''w'') of
        None \<Rightarrow> Inl KeyError
      | Some v \<Rightarrow>
          (case py_int v of
             Inl err \<Rightarrow> Inl err
           | Inr i \<Rightarrow> Inr (dict_set (str ''w'') (py_str_int (i + k)) d)))"

text \<open>The \<open>w\<close> branch.\<close>

definition word_update :: "lab_state \<Rightarrow> py_error + lab_state" where
  "word_update st =
     (let st0 = ensure_w st
      in case bump_w 2 (div_indices st0) of
           Inl err \<Rightarrow> Inl err
         | Inr d \<Rightarrow> Inr (st0\<lparr>div_indices := d\<rparr>))"

text \<open>
  The loop that builds a label from the indices \<open>d\<close> over the division types \<open>ts\<close>;
  \<open>skip\<close> says that the hierarchy holds an incipit or an explicit, where the verse is
  left out.
\<close>

fun label_of :: "bool \<Rightarrow> (pystr \<times> pystr) list \<Rightarrow> pystr list \<Rightarrow> py_error + pystr" where
  "label_of skip d [] = Inr []"
| "label_of skip d (t # ts) =
     (if skip \<and> t = str ''verse'' then label_of skip d ts
      else (case map_of div_abbreviations t of
              None \<Rightarrow> Inl KeyError
            | Some ab \<Rightarrow>
                (case map_of d t of
                   None \<Rightarrow> Inl KeyError
                 | Some v \<Rightarrow>
                     (case label_of skip d ts of
                        Inl err \<Rightarrow> Inl err
                      | Inr r \<Rightarrow> Inr (ab @ v @ r)))))"

text \<open>The first division type at which the start and end indices differ.\<close>

fun difference_level ::
  "(pystr \<times> pystr) list \<Rightarrow> (pystr \<times> pystr) list \<Rightarrow> pystr list \<Rightarrow> py_error + pystr option"
where
  "difference_level a b [] = Inr None"
| "difference_level a b (t # ts) =
     (case map_of a t of
        None \<Rightarrow> Inl KeyError
      | Some x \<Rightarrow>
          (case map_of b t of
             None \<Rightarrow> Inl KeyError
           | Some y \<Rightarrow> if x \<noteq> y then Inr (Some t) else difference_level a b ts))"

text \<open>
  The label of an apparatus \<open>e\<close> from the indices \<open>start0\<close> saved before its lemma was
  read and the state \<open>st\<close> after.
\<close>

definition app_label :: "(pystr \<times> pystr) list \<Rightarrow> lab_state \<Rightarrow> xml \<Rightarrow> py_error + pystr" where
  "app_label start0 st e =
     (let h = div_hierarchy st;
          fin = div_indices st;
          skip = (str ''incipit'' \<in> set h \<or> str ''explicit'' \<in> set h)
      in if dict_eq start0 fin
         then (case (if xpath_desc ''w'' e \<noteq> [] then bump_w 1 start0 else Inr start0) of
                 Inl err \<Rightarrow> Inl err
               | Inr start \<Rightarrow> label_of skip start h)
         else (case bump_w 2 start0 of
                 Inl err \<Rightarrow> Inl err
               | Inr start \<Rightarrow>
                   if dict_eq start fin then label_of skip start h
                   else (case difference_level start fin h of
                           Inl err \<Rightarrow> Inl err
                         | Inr lvl \<Rightarrow>
                             (case label_of skip start h of
                                Inl err \<Rightarrow> Inl err
                              | Inr a \<Rightarrow>
                                  (case lvl of
                                     None \<Rightarrow> Inl ValueError
                                   | Some l \<Rightarrow>
                                       (case label_of skip fin (from_first l h) of
                                          Inl err \<Rightarrow> Inl err
                                        | Inr b \<Rightarrow> Inr (a @ str ''-'' @ b)))))))"

text \<open>
  Putting new children under the first element with tag \<open>t\<close> among a list of elements
  and their descendants, in document order (\<open>None\<close> when there is none).
\<close>

fun set_first_children :: "pystr \<Rightarrow> xml list \<Rightarrow> xml \<Rightarrow> xml option"
  and set_first_children_list :: "pystr \<Rightarrow> xml list \<Rightarrow> xml list \<Rightarrow> xml list option" where
  "set_first_children t new (Elem tg a x cs y) =
     (if tg = t then Some (Elem tg a x new y)
      else map_option (\<lambda>cs'. Elem tg a x cs' y) (set_first_children_list t new cs))"
| "set_first_children_list t new [] = None"
| "set_first_children_list t new (c # cs) =
     (case set_first_children t new c of
        Some c' \<Rightarrow> Some (c' # cs)
      | None \<Rightarrow> map_option ((#) c) (set_first_children_list t new cs))"

text \<open>The apparatus \<open>e\<close> after the children of its first \<open>lem\<close> were relabelled.\<close>

definition set_lem_children :: "xml list \<Rightarrow> xml \<Rightarrow> xml" where
  "set_lem_children new e =
     (case set_first_children_list (tei ''lem'') new (children e) of
        None \<Rightarrow> e
      | Some cs' \<Rightarrow> with_children e cs')"

lemma size_descendants: "d \<in> set (descendants e) \<Longrightarrow> size d < size e"
proof (induction e arbitrary: d rule: descendants.induct)
  case (1 t a x cs y)
  from "1.prems" obtain c where c: "c \<in> set cs" and d: "d = c \<or> d \<in> set (descendants c)"
    by auto
  have "size c < size (Elem t a x cs y)"
    using c by (simp add: less_Suc_eq_le size_list_estimation')
  moreover have "size d \<le> size c"
  proof (cases "d = c")
    case True
    then show ?thesis by simp
  next
    case False
    with d have "d \<in> set (descendants c)" by simp
    then have "size d < size c" by (rule "1.IH" [OF c])
    then show ?thesis by simp
  qed
  ultimately show ?case by simp
qed

lemma size_children: "size_list size (children e) < size e"
  by (cases e) simp

text \<open>
  \<open>add_indices\<close> on an element, with the labeler's fields passed in and returned: the
  element comes back with the \<open>n\<close> attributes that were set below it.
\<close>

function add_indices :: "lab_state \<Rightarrow> xml \<Rightarrow> py_error + lab_state \<times> xml"
  and add_indices_list :: "lab_state \<Rightarrow> xml list \<Rightarrow> py_error + lab_state \<times> xml list" where
  "add_indices st e =
     (if raw_tag (tag e) = str ''divGen''
      then (case divgen_update st e of Inl err \<Rightarrow> Inl err | Inr st' \<Rightarrow> Inr (st', e))
      else if raw_tag (tag e) = str ''w''
      then (case word_update st of Inl err \<Rightarrow> Inl err | Inr st' \<Rightarrow> Inr (st', e))
      else if raw_tag (tag e) = str ''app''
      then (case xpath_desc ''lem'' e of
              [] \<Rightarrow> Inl IndexError
            | lem # rest \<Rightarrow>
                (case add_indices_list (ensure_w st) (children lem) of
                   Inl err \<Rightarrow> Inl err
                 | Inr (st1, cs') \<Rightarrow>
                     (case app_label (div_indices (ensure_w st)) st1 (set_lem_children cs' e) of
                        Inl err \<Rightarrow> Inl err
                      | Inr app_n \<Rightarrow>
                          Inr (st1, el_set (set_lem_children cs' e) (str ''n'') app_n))))
      else (case add_indices_list st (children e) of
              Inl err \<Rightarrow> Inl err
            | Inr (st', cs') \<Rightarrow> Inr (st', with_children e cs')))"
| "add_indices_list st [] = Inr (st, [])"
| "add_indices_list st (c # cs) =
     (case add_indices st c of
        Inl err \<Rightarrow> Inl err
      | Inr (st', c') \<Rightarrow>
          (case add_indices_list st' cs of
             Inl err \<Rightarrow> Inl err
           | Inr (st'', cs') \<Rightarrow> Inr (st'', c' # cs')))"
  by pat_completeness auto
termination
proof (relation "measure (\<lambda>v. case v of Inl (st, e) \<Rightarrow> 2 * size e
                                        | Inr (st, cs) \<Rightarrow> 2 * size_list size cs + 1)")
  show "wf (measure (\<lambda>v. case v of Inl (st, e) \<Rightarrow> 2 * size e
                                   | Inr (st, cs) \<Rightarrow> 2 * size_list size cs + 1))"
    by simp
next
  fix st :: lab_state and e lem rest
  assume "xpath_desc ''lem'' e = lem # rest"
  then have "lem \<in> set (descendants e)"
    by (metis filter_is_subset list.set_intros(1) subsetD xpath_desc_def)
  then have "size lem < size e" by (rule size_descendants)
  moreover have "size_list size (children lem) < size lem" by (rule size_children)
  ultimately show "(Inr (ensure_w st, children lem), Inl (st, e))
      \<in> measure (\<lambda>v. case v of Inl (st, e) \<Rightarrow> 2 * size e
                               | Inr (st, cs) \<Rightarrow> 2 * size_list size cs + 1)"
    by simp
next
  fix st :: lab_state and e
  show "(Inr (st, children e), Inl (st, e))
      \<in> measure (\<lambda>v. case v of Inl (st, e) \<Rightarrow> 2 * size e
                               | Inr (st, cs) \<Rightarrow> 2 * size_list size cs + 1)"
    using size_children [of e] by simp
qed auto

declare add_indices.simps [simp del]

text \<open>
  \<open>add_indices\<close> called on the tree by a new labeler: the \<open>n\<close> attribute of every
  \<open>app\<close> of the labelled document, in document order.
\<close>

definition app_ns :: "xml \<Rightarrow> py_error + pystr option list" where
  "app_ns root =
     (case add_indices lab_init root of
        Inl err \<Rightarrow> Inl err
      | Inr (st, root') \<Rightarrow> Inr (map (\<lambda>a. el_get a (str ''n'')) (xpath_all ''app'' root')))"

definition divGen :: "string \<Rightarrow> string \<Rightarrow> xml" where
  "divGen ty n = Elem (tei ''divGen'') [(str ''type'', str ty), (str ''n'', str n)] None [] None"

definition word :: "string \<Rightarrow> xml" where
  "word s = Elem (tei ''w'') [] (Some (str s)) [] None"

definition el :: "string \<Rightarrow> xml list \<Rightarrow> xml" where
  "el name cs = Elem (tei name) [] None cs None"

section \<open>tei_collation_editor\<close>

text \<open>
  The number of \<open>divGen\<close> elements of type \<open>seg\<close> below an element:
  \<open>len(el.xpath('.//tei:divGen[@type=\'seg\']'))\<close>.
\<close>

definition count_segs :: "xml \<Rightarrow> nat" where
  "count_segs e =
     length (filter (\<lambda>d. el_get d (str ''type'') = Some (str ''seg'')) (xpath_desc ''divGen'' e))"

definition mismatch_message :: "pystr \<Rightarrow> pystr" where
  "mismatch_message app_n =
     str ''The apparatus with index '' @ app_n @
     str '' has a reading with a different number of segment division markers than the lemma.''"

text \<open>\<open>app.get('n') if app.get('n') is not None else ''\<close>.\<close>

definition app_n_of :: "xml \<Rightarrow> pystr" where
  "app_n_of app = (case el_get app (str ''n'') of None \<Rightarrow> [] | Some n \<Rightarrow> n)"

text \<open>
  The inner loop of \<open>validate\<close> over the readings of one apparatus, and the outer loop
  over the apparatuses. The pair carried along is the flag \<open>valid\<close> and the lines
  printed so far.
\<close>

fun validate_rdgs :: "pystr \<Rightarrow> nat \<Rightarrow> bool \<times> pystr list \<Rightarrow> xml list \<Rightarrow> bool \<times> pystr list" where
  "validate_rdgs app_n n_segs acc [] = acc"
| "validate_rdgs app_n n_segs acc (rdg # rdgs) =
     validate_rdgs app_n n_segs
       (if count_segs rdg \<noteq> n_segs then (False, snd acc @ [mismatch_message app_n]) else acc)
       rdgs"

fun validate_apps :: "bool \<times> pystr list \<Rightarrow> xml list \<Rightarrow> py_error + bool \<times> pystr list" where
  "validate_apps acc [] = Inr acc"
| "validate_apps acc (app # apps) =
     (case xpath_desc ''lem'' app of
        [] \<Rightarrow> Inl IndexError
      | lem # rest \<Rightarrow>
          validate_apps
            (validate_rdgs (app_n_of app) (count_segs lem) acc (xpath_desc ''rdg'' app)) apps)"

text \<open>\<open>validate\<close>: the value returned and the lines printed.\<close>

definition validate :: "xml \<Rightarrow> py_error + bool \<times> pystr list" where
  "validate root = validate_apps (True, []) (xpath_all ''app'' root)"

text \<open>
  \<open>get_witnesses\<close>: the \<open>id\<close> attribute of every \<open>witness\<close> element of the document
  (\<open>None\<close> where it has none), after a \<open>listWit\<close> was found.
\<close>

definition get_witnesses :: "xml \<Rightarrow> py_error + pystr option list" where
  "get_witnesses root =
     (case xpath_all ''listWit'' root of
        [] \<Rightarrow> Inl IndexError
      | listWit # rest \<Rightarrow> Inr (map (\<lambda>w. el_get w (str ''id'')) (xpath_all ''witness'' root)))"

text \<open>
  The tree that \<open>get_lemma_xml\<close> and \<open>get_witness_xml\<close> build: a \<open>TEI\<close> root, a
  \<open>text\<close> with the attributes of the original one, and a \<open>body\<close> with the given
  children.
\<close>

definition projection_tree :: "(pystr \<times> pystr) list \<Rightarrow> xml list \<Rightarrow> xml" where
  "projection_tree text_attrib cs =
     Elem (tei ''TEI'') [] None
       [Elem (tei ''text'') text_attrib None [Elem (tei ''body'') [] None cs None] None] None"

text \<open>The loop of \<open>get_lemma_xml\<close> over the children of the body.\<close>

fun lemma_children :: "xml list \<Rightarrow> py_error + xml list" where
  "lemma_children [] = Inr []"
| "lemma_children (child # rest) =
     (if raw_tag (tag child) = str ''app''
      then (case xpath_desc ''lem'' child of
              [] \<Rightarrow> Inl IndexError
            | lem # ls \<Rightarrow>
                (case lemma_children rest of
                   Inl err \<Rightarrow> Inl err
                 | Inr cs \<Rightarrow> Inr (children lem @ cs)))
      else (case lemma_children rest of
              Inl err \<Rightarrow> Inl err
            | Inr cs \<Rightarrow> Inr (child # cs)))"

definition get_lemma_xml :: "xml \<Rightarrow> py_error + xml" where
  "get_lemma_xml root =
     (case xpath_all ''text'' root of
        [] \<Rightarrow> Inl IndexError
      | text # ts \<Rightarrow>
          (case xpath_desc ''body'' text of
             [] \<Rightarrow> Inl IndexError
           | body # bs \<Rightarrow>
               (case lemma_children (children body) of
                  Inl err \<Rightarrow> Inl err
                | Inr cs \<Rightarrow> Inr (projection_tree (attrib text) cs))))"

text \<open>
  The search of \<open>get_witness_xml\<close> through the readings of one apparatus: the first
  \<open>rdg\<close> whose \<open>wit\<close> attribute, split at whitespace, holds \<open>'#' + wit\<close>. A witness
  identifier that is \<open>None\<close> cannot be concatenated (\<open>TypeError\<close>), and a reading with
  no \<open>wit\<close> attribute cannot be split (\<open>AttributeError\<close>).
\<close>

fun find_wit_rdg :: "pystr option \<Rightarrow> xml list \<Rightarrow> py_error + xml option" where
  "find_wit_rdg wit [] = Inr None"
| "find_wit_rdg wit (rdg # rdgs) =
     (case wit of
        None \<Rightarrow> Inl TypeError
      | Some w \<Rightarrow>
          (case el_get rdg (str ''wit'') of
             None \<Rightarrow> Inl AttributeError
           | Some refs \<Rightarrow>
               if str ''#'' @ w \<in> set (py_split refs) then Inr (Some rdg)
               else find_wit_rdg wit rdgs))"

text \<open>\<open>rdg.get('wit').split()\<close> for a reading that has the attribute.\<close>

definition wit_refs :: "xml \<Rightarrow> pystr list" where
  "wit_refs rdg = (case el_get rdg (str ''wit'') of None \<Rightarrow> [] | Some refs \<Rightarrow> py_split refs)"

text \<open>
  The reading whose children stand for the apparatus: the one found, or else the empty
  \<open>rdg\<close> element that \<open>wit_rdg\<close> was initialised with.
\<close>

definition wit_rdg_of :: "pystr option \<Rightarrow> xml \<Rightarrow> py_error + xml" where
  "wit_rdg_of wit app =
     (case find_wit_rdg wit (xpath_desc ''rdg'' app) of
        Inl err \<Rightarrow> Inl err
      | Inr None \<Rightarrow> Inr (Element (tei ''rdg''))
      | Inr (Some rdg) \<Rightarrow> Inr rdg)"

text \<open>The loop of \<open>get_witness_xml\<close> over the children of the body.\<close>

fun witness_children :: "pystr option \<Rightarrow> xml list \<Rightarrow> py_error + xml list" where
  "witness_children wit [] = Inr []"
| "witness_children wit (child # rest) =
     (if raw_tag (tag child) = str ''app''
      then (case wit_rdg_of wit child of
              Inl err \<Rightarrow> Inl err
            | Inr wit_rdg \<Rightarrow>
                (case witness_children wit rest of
                   Inl err \<Rightarrow> Inl err
                 | Inr cs \<Rightarrow> Inr (children wit_rdg @ cs)))
      else (case witness_children wit rest of
              Inl err \<Rightarrow> Inl err
            | Inr cs \<Rightarrow> Inr (child # cs)))"

definition get_witness_xml :: "xml \<Rightarrow> pystr option \<Rightarrow> py_error + xml" where
  "get_witness_xml root wit =
     (case xpath_all ''text'' root of
        [] \<Rightarrow> Inl IndexError
      | text # ts \<Rightarrow>
          (case xpath_desc ''body'' text of
             [] \<Rightarrow> Inl IndexError
           | body # bs \<Rightarrow>
               (case witness_children wit (children body) of
                  Inl err \<Rightarrow> Inl err
                | Inr cs \<Rightarrow> Inr (projection_tree (attrib text) cs))))"

text \<open>A reading with a \<open>wit\<close> attribute, for the examples.\<close>

definition rdg_el :: "string \<Rightarrow> xml list \<Rightarrow> xml" where
  "rdg_el wits cs = Elem (tei ''rdg'') [(str ''wit'', str wits)] None cs None"

text \<open>
  The test of \<open>tei_collation_editor.segment\<close> for a segment division marker, and its loop
  over the children of the body: \<open>cur\<close> holds the children of the segment being filled,
  which is closed at every marker and at the end.
\<close>

definition is_seg_marker :: "xml \<Rightarrow> bool" where
  "is_seg_marker c \<longleftrightarrow>
     raw_tag (tag c) = str ''divGen'' \<and> el_get c (str ''type'') = Some (str ''seg'')"

fun ce_segment_loop :: "xml list \<Rightarrow> xml list \<Rightarrow> xml list" where
  "ce_segment_loop cur [] = [Elem (tei ''seg'') [] None cur None]"
| "ce_segment_loop cur (c # cs) =
     (if is_seg_marker c then Elem (tei ''seg'') [] None cur None # ce_segment_loop [] cs
      else ce_segment_loop (cur @ [c]) cs)"

text \<open>The children of the body of a tree built by \<open>projection_tree\<close>.\<close>

definition tree_body :: "xml \<Rightarrow> xml list" where
  "tree_body t =
     (case t of
        Elem t1 a1 x1 [Elem t2 a2 x2 [Elem t3 a3 x3 cs y3] y2] y1 \<Rightarrow> cs
      | _ \<Rightarrow> [])"

text \<open>
  \<open>segment\<close> applied to such a tree, followed by \<open>xpath('//tei:seg')\<close>: the segments,
  which are the children of the new body. (The query also finds \<open>seg\<close> elements that
  the document itself holds below them; the properties of \<open>update_boundaries\<close> are
  stated for documents without any.)
\<close>

definition segs_of :: "xml \<Rightarrow> xml list" where
  "segs_of t = ce_segment_loop [] (tree_body t)"

text \<open>A witness projection for each identifier of the list; the first failure wins.\<close>

fun witness_trees :: "xml \<Rightarrow> pystr option list \<Rightarrow> py_error + xml list" where
  "witness_trees root [] = Inr []"
| "witness_trees root (wit # wits) =
     (case get_witness_xml root wit of
        Inl err \<Rightarrow> Inl err
      | Inr t \<Rightarrow>
          (case witness_trees root wits of
             Inl err \<Rightarrow> Inl err
           | Inr ts \<Rightarrow> Inr (t # ts)))"

text \<open>
  \<open>witness_xml.xpath('//tei:seg')[i]\<close> for each witness in turn, given the segments of
  each witness.
\<close>

fun segs_at :: "nat \<Rightarrow> ('w \<times> xml list) list \<Rightarrow> py_error + ('w \<times> xml) list" where
  "segs_at i [] = Inr []"
| "segs_at i ((wit, segs) # rest) =
     (if i < length segs
      then (case segs_at i rest of
              Inl err \<Rightarrow> Inl err
            | Inr ps \<Rightarrow> Inr ((wit, segs ! i) # ps))
      else Inl IndexError)"

text \<open>
  The grouping loop over the witnesses at one segment index: \<open>rdg_segs\<close> collects the
  first segment of each new serialisation, \<open>reading_support\<close> maps a serialisation to
  the witnesses that have it. \<open>ser\<close> stands for \<open>et.tostring(_, encoding='unicode')\<close>.
\<close>

fun group_loop ::
  "(xml \<Rightarrow> pystr) \<Rightarrow> xml list \<times> (pystr \<times> 'w list) list \<Rightarrow> ('w \<times> xml) list
     \<Rightarrow> xml list \<times> (pystr \<times> 'w list) list" where
  "group_loop ser acc [] = acc"
| "group_loop ser acc ((wit, witness_seg) # rest) =
     (case map_of (snd acc) (ser witness_seg) of
        None \<Rightarrow>
          group_loop ser (fst acc @ [witness_seg], dict_set (ser witness_seg) [wit] (snd acc)) rest
      | Some ws \<Rightarrow>
          group_loop ser (fst acc, dict_set (ser witness_seg) (ws @ [wit]) (snd acc)) rest)"

text \<open>\<open>['#' + wit for wit in wits]\<close>, a \<open>TypeError\<close> when an identifier is \<open>None\<close>.\<close>

fun wit_ref_list :: "pystr option list \<Rightarrow> py_error + pystr list" where
  "wit_ref_list [] = Inr []"
| "wit_ref_list (None # wits) = Inl TypeError"
| "wit_ref_list (Some w # wits) =
     (case wit_ref_list wits of Inl err \<Rightarrow> Inl err | Inr refs \<Rightarrow> Inr ((str ''#'' @ w) # refs))"

text \<open>The \<open>rdg\<close> elements of a new apparatus, one for each collected segment.\<close>

fun build_rdgs ::
  "(xml \<Rightarrow> pystr) \<Rightarrow> (pystr \<times> pystr option list) list \<Rightarrow> xml list \<Rightarrow> py_error + xml list" where
  "build_rdgs ser reading_support [] = Inr []"
| "build_rdgs ser reading_support (rdg_seg # rest) =
     (case map_of reading_support (ser rdg_seg) of
        None \<Rightarrow> Inl KeyError
      | Some wits \<Rightarrow>
          (case wit_ref_list wits of
             Inl err \<Rightarrow> Inl err
           | Inr refs \<Rightarrow>
               (case build_rdgs ser reading_support rest of
                  Inl err \<Rightarrow> Inl err
                | Inr rdgs \<Rightarrow>
                    Inr (Elem (tei ''rdg'') [(str ''wit'', py_join (str '' '') refs)] None
                           (children rdg_seg) None # rdgs))))"

text \<open>
  What one segment index adds to the updated body, from the segment of each witness
  and the lemma's segment.
\<close>

definition update_segment ::
  "(xml \<Rightarrow> pystr) \<Rightarrow> (pystr option \<times> xml) list \<Rightarrow> xml \<Rightarrow> py_error + xml list" where
  "update_segment ser ps lem_seg =
     (case group_loop ser ([], []) ps of
        (rdg_segs, reading_support) \<Rightarrow>
          if length reading_support = 1 then Inr (children lem_seg)
          else (case build_rdgs ser reading_support rdg_segs of
                  Inl err \<Rightarrow> Inl err
                | Inr rdgs \<Rightarrow>
                    Inr [Elem (tei ''app'') [] None
                           (Elem (tei ''lem'') [] None (children lem_seg) None # rdgs) None]))"

text \<open>The loop over the segment indices of the lemma, from index \<open>i\<close> on.\<close>

fun update_loop ::
  "(xml \<Rightarrow> pystr) \<Rightarrow> (pystr option \<times> xml list) list \<Rightarrow> nat \<Rightarrow> xml list \<Rightarrow> py_error + xml list" where
  "update_loop ser ws i [] = Inr []"
| "update_loop ser ws i (lem_seg # rest) =
     (case segs_at i ws of
        Inl err \<Rightarrow> Inl err
      | Inr ps \<Rightarrow>
          (case update_segment ser ps lem_seg of
             Inl err \<Rightarrow> Inl err
           | Inr out \<Rightarrow>
               (case update_loop ser ws (Suc i) rest of
                  Inl err \<Rightarrow> Inl err
                | Inr outs \<Rightarrow> Inr (out @ outs))))"

text \<open>
  Whether the first \<open>body\<close> below the first \<open>text\<close> of the document is a child of that
  \<open>text\<close>: \<open>text.remove(body)\<close> raises \<open>ValueError\<close> otherwise.
\<close>

fun first_body_is_child :: "xml list \<Rightarrow> bool" where
  "first_body_is_child [] = False"
| "first_body_is_child (c # cs) =
     (if tag c = tei ''body'' then True
      else if xpath_desc ''body'' c \<noteq> [] then False
      else first_body_is_child cs)"

text \<open>
  \<open>update_boundaries\<close>: the children of the body that replaces the old one.
\<close>

definition update_boundaries :: "(xml \<Rightarrow> pystr) \<Rightarrow> xml \<Rightarrow> py_error + xml list" where
  "update_boundaries ser root =
     (case get_witnesses root of
        Inl err \<Rightarrow> Inl err
      | Inr witnesses \<Rightarrow>
          (case get_lemma_xml root of
             Inl err \<Rightarrow> Inl err
           | Inr lemma_xml \<Rightarrow>
               (case witness_trees root witnesses of
                  Inl err \<Rightarrow> Inl err
                | Inr trees \<Rightarrow>
                    (case update_loop ser (zip witnesses (map segs_of trees)) 0 (segs_of lemma_xml) of
                       Inl err \<Rightarrow> Inl err
                     | Inr out \<Rightarrow>
                         (case xpath_all ''text'' root of
                            [] \<Rightarrow> Inl IndexError
                          | text # ts \<Rightarrow>
                              if first_body_is_child (children text) then Inr out
                              else Inl ValueError)))))"

text \<open>
  The distinct values of a list in the order in which they are first met, the
  identifiers that support a serialisation, and the first segment that has it.
\<close>

definition first_seen :: "'a list \<Rightarrow> 'a list" where
  "first_seen xs = foldl (\<lambda>acc x. if x \<in> set acc then acc else acc @ [x]) [] xs"

definition supporters :: "(xml \<Rightarrow> pystr) \<Rightarrow> ('w \<times> xml) list \<Rightarrow> pystr \<Rightarrow> 'w list" where
  "supporters ser ps s = map fst (filter (\<lambda>p. ser (snd p) = s) ps)"

definition representative :: "(xml \<Rightarrow> pystr) \<Rightarrow> ('w \<times> xml) list \<Rightarrow> pystr \<Rightarrow> xml" where
  "representative ser ps s = snd (hd (filter (\<lambda>p. ser (snd p) = s) ps))"

text \<open>
  The result described for one segment index, given the identifier and the segment of
  each witness and the segment of the lemma: the content of the lemma's segment when
  there is exactly one group, and otherwise one apparatus with the lemma's content
  under \<open>lem\<close> and an \<open>rdg\<close> for each group in the order of discovery.
\<close>

definition group_rdg :: "(xml \<Rightarrow> pystr) \<Rightarrow> (pystr \<times> xml) list \<Rightarrow> pystr \<Rightarrow> xml" where
  "group_rdg ser ps s =
     Elem (tei ''rdg'')
       [(str ''wit'', py_join (str '' '') (map (\<lambda>w. str ''#'' @ w) (supporters ser ps s)))]
       None (children (representative ser ps s)) None"

definition grouped_segment :: "(xml \<Rightarrow> pystr) \<Rightarrow> (pystr \<times> xml) list \<Rightarrow> xml \<Rightarrow> xml list" where
  "grouped_segment ser ps lem_seg =
     (if length (first_seen (map (\<lambda>p. ser (snd p)) ps)) = 1 then children lem_seg
      else [Elem (tei ''app'') [] None
              (Elem (tei ''lem'') [] None (children lem_seg) None #
               map (group_rdg ser ps) (first_seen (map (\<lambda>p. ser (snd p)) ps))) None])"

definition with_ids :: "(pystr \<times> xml) list \<Rightarrow> (pystr option \<times> xml) list" where
  "with_ids ps = map (\<lambda>p. (Some (fst p), snd p)) ps"

text \<open>An example serialisation of an element, for the closed examples.\<close>

fun to_string :: "xml \<Rightarrow> pystr" where
  "to_string (Elem t a x cs y) =
     str ''<'' @ t @ concat (map (\<lambda>p. str '' '' @ fst p @ str ''='' @ snd p) a) @ str ''>'' @
     (case x of None \<Rightarrow> [] | Some s \<Rightarrow> s) @ concat (map to_string cs) @
     str ''</'' @ t @ str ''>'' @ (case y of None \<Rightarrow> [] | Some s \<Rightarrow> s)"

definition witness_el :: "string \<Rightarrow> xml" where
  "witness_el i = Elem (tei ''witness'') [(str ''id'', str i)] None [] None"

text \<open>A segment division marker, for the examples.\<close>

definition seg_marker :: xml where
  "seg_marker = Elem (tei ''divGen'') [(str ''type'', str ''seg'')] None [] None"

definition example_doc :: xml where
  "example_doc =
     el ''TEI''
       [el ''listWit'' [witness_el ''A'', witness_el ''B'', witness_el ''C''],
        el ''text'' [el ''body''
          [word ''a'', seg_marker,
           el ''app'' [el ''lem'' [word ''b''], rdg_el ''#A #B'' [word ''b''], rdg_el ''#C'' [word ''c'']],
           seg_marker, word ''d'']]]"

text \<open>The \<open>divGen\<close> elements of type \<open>seg\<close> below an element, which \<open>validate\<close> counts.\<close>

definition seg_markers_below :: "xml \<Rightarrow> xml list" where
  "seg_markers_below e =
     filter (\<lambda>d. el_get d (str ''type'') = Some (str ''seg'')) (xpath_desc ''divGen'' e)"

text \<open>
  A document in which witness \<open>B\<close> is named by no reading of the apparatus, and one in
  which every witness is.
\<close>

definition uncovered_doc :: xml where
  "uncovered_doc =
     el ''TEI''
       [el ''listWit'' [witness_el ''A'', witness_el ''B''],
        el ''text'' [el ''body''
          [el ''app'' [el ''lem'' [word ''b'', seg_marker, word ''c''],
                       rdg_el ''#A'' [word ''b'', seg_marker, word ''c'']]]]]"

definition covered_doc :: xml where
  "covered_doc =
     el ''TEI''
       [el ''listWit'' [witness_el ''A'', witness_el ''B'', witness_el ''C''],
        el ''text'' [el ''body''
          [word ''a'',
           el ''app'' [el ''lem'' [word ''b'', seg_marker, word ''c''],
                       rdg_el ''#A #B'' [word ''b'', seg_marker, word ''c''],
                       rdg_el ''#C'' [seg_marker, word ''x'']],
           word ''d'']]]"

text \<open>
  The character classes of \<open>accentuatation_res\<close> and the Hebrew letters of
  \<open>strip_plene\<close>.
\<close>

datatype accent = Cantillation | Pointing | Extraordinaire

definition is_cantillation :: "nat \<Rightarrow> bool" where
  "is_cantillation c \<longleftrightarrow> (1425 \<le> c \<and> c \<le> 1455) \<or> c = 1469 \<or> (8204 \<le> c \<and> c \<le> 8205)"

definition is_pointing :: "nat \<Rightarrow> bool" where
  "is_pointing c \<longleftrightarrow>
     (1456 \<le> c \<and> c \<le> 1468) \<or> c = 1471 \<or> (1473 \<le> c \<and> c \<le> 1474) \<or> c = 1479"

definition is_extraordinaire :: "nat \<Rightarrow> bool" where
  "is_extraordinaire c \<longleftrightarrow> 1476 \<le> c \<and> c \<le> 1477"

definition is_letter :: "nat \<Rightarrow> bool" where
  "is_letter c \<longleftrightarrow> 1488 \<le> c \<and> c \<le> 1514"

definition accent_class :: "accent \<Rightarrow> nat \<Rightarrow> bool" where
  "accent_class a c =
     (case a of Cantillation \<Rightarrow> is_cantillation c | Pointing \<Rightarrow> is_pointing c
              | Extraordinaire \<Rightarrow> is_extraordinaire c)"

text \<open>
  \<open>format_text\<close> for the set \<open>A\<close> of ignored accent classes. \<open>nfkd\<close> and \<open>nfc\<close> stand
  for \<open>unicodedata.normalize('NFKD', _)\<close> and \<open>unicodedata.normalize('NFC', _)\<close> of the
  Python library; removing the classes one after the other removes every character
  that is in one of them.
\<close>

definition format_text ::
  "(pystr \<Rightarrow> pystr) \<Rightarrow> (pystr \<Rightarrow> pystr) \<Rightarrow> accent set \<Rightarrow> pystr \<Rightarrow> pystr" where
  "format_text nfkd nfc A s =
     nfc (filter (\<lambda>c. \<not> ((Cantillation \<in> A \<and> is_cantillation c) \<or>
                          (Pointing \<in> A \<and> is_pointing c) \<or>
                          (Extraordinaire \<in> A \<and> is_extraordinaire c))) (nfkd s))"

text \<open>
  The first loop of \<open>strip_plene\<close>: the characters are grouped into letters with their
  pointing; a space or a letter starts a new group, other characters are skipped.
\<close>

fun group_letters :: "pystr list \<Rightarrow> pystr \<Rightarrow> pystr \<Rightarrow> pystr list" where
  "group_letters acc queue [] = acc @ [queue]"
| "group_letters acc queue (c # cs) =
     (if c \<noteq> 32 \<and> \<not> is_letter c \<and> \<not> is_pointing c then group_letters acc queue cs
      else if c = 32 \<or> is_letter c then group_letters (acc @ [queue]) [c] cs
      else group_letters acc (queue @ [c]) cs)"

text \<open>
  One iteration of the second loop, at index \<open>i\<close>: the list of groups and the group
  that was read in the iteration before.
\<close>

definition has_i_vowel :: "pystr \<Rightarrow> bool" where
  "has_i_vowel g \<longleftrightarrow> 1460 \<in> set g \<or> 1461 \<in> set g \<or> 1462 \<in> set g"

definition plene_step :: "pystr list \<times> pystr \<Rightarrow> nat \<Rightarrow> pystr list \<times> pystr" where
  "plene_step st i =
     (let ls = fst st; prev = snd st; cur = ls ! i in
      (if cur = [32] then ls
       else if i = 0 \<or> prev = [32] then ls
       else if i = length ls - 1 \<or> ls ! (i + 1) = [32] then ls
       else if cur = [1488] then ls[i := []]
       else if cur = [1493] \<and> prev = [1488] \<and> i > 1 \<and> ls ! (i - 2) \<noteq> [32]
       then (let l1 = ls[i := [], i - 1 := []]
             in if 1465 \<notin> set (l1 ! (i - 2)) then l1[i - 2 := l1 ! (i - 2) @ [1465]] else l1)
       else if cur = [1493, 1465] then ls[i := [], i - 1 := ls ! (i - 1) @ [1465]]
       else if cur = [1493, 1468] then ls[i := [], i - 1 := ls ! (i - 1) @ [1467]]
       else if cur = [1497] \<and> has_i_vowel prev then ls[i := []]
       else if cur = [1497, 1456] \<and> has_i_vowel prev then ls[i := []]
       else ls,
       cur))"

definition strip_plene :: "(pystr \<Rightarrow> pystr) \<Rightarrow> (pystr \<Rightarrow> pystr) \<Rightarrow> pystr \<Rightarrow> pystr" where
  "strip_plene nfkd nfc s =
     (let ls = drop 1 (group_letters [] [] (nfkd s))
      in nfc (concat (fst (foldl plene_step (ls, []) [0..<length ls]))))"

text \<open>
  The serialisation of a reading in \<open>add_types\<close>: the text of each child, or its tag
  when it has no text, joined by spaces.
\<close>

definition rdg_serialization :: "xml \<Rightarrow> pystr" where
  "rdg_serialization r =
     py_join (str '' '') (map (\<lambda>e. case text_of e of None \<Rightarrow> tag e | Some t \<Rightarrow> t) (children r))"

text \<open>
  The type chosen from the serialisation of the primary reading and those of the
  other readings. The normalizer of \<open>add_types\<close> ignores all three accent classes.
\<close>

definition all_accents :: "accent set" where
  "all_accents = {Cantillation, Pointing, Extraordinaire}"

definition classify ::
  "(pystr \<Rightarrow> pystr) \<Rightarrow> (pystr \<Rightarrow> pystr) \<Rightarrow> pystr \<Rightarrow> pystr list \<Rightarrow> pystr" where
  "classify nfkd nfc primary variants =
     (let ft = format_text nfkd nfc all_accents; sp = strip_plene nfkd nfc in
      if list_all (\<lambda>v. ft v = ft primary) variants then str ''vocalic''
      else if list_all (\<lambda>v. ft (sp v) = ft (sp primary)) variants then str ''orthographic''
      else if list_all (\<lambda>v. set (py_split (ft v)) = set (py_split (ft primary))) variants
      then str ''transposition''
      else if length (py_split primary) = 0
      then (if list_all (\<lambda>v. length (py_split v) \<noteq> 0) variants then str ''addition''
            else str ''substitution'')
      else (if list_all (\<lambda>v. \<not> length (py_split v) > 0) variants then str ''omission''
            else str ''substitution''))"

text \<open>The type of one apparatus: its first \<open>rdg\<close> is the primary reading.\<close>

definition app_type ::
  "(pystr \<Rightarrow> pystr) \<Rightarrow> (pystr \<Rightarrow> pystr) \<Rightarrow> xml \<Rightarrow> py_error + pystr" where
  "app_type nfkd nfc app =
     (case xpath_desc ''rdg'' app of
        [] \<Rightarrow> Inl IndexError
      | primary_rdg # rdgs \<Rightarrow>
          Inr (classify nfkd nfc (rdg_serialization primary_rdg) (map rdg_serialization rdgs)))"

text \<open>
  \<open>add_types\<close>: every \<open>app\<close> of the document, in document order, gets its \<open>type\<close>.
\<close>

fun add_types :: "(pystr \<Rightarrow> pystr) \<Rightarrow> (pystr \<Rightarrow> pystr) \<Rightarrow> xml \<Rightarrow> py_error + xml"
  and add_types_list ::
    "(pystr \<Rightarrow> pystr) \<Rightarrow> (pystr \<Rightarrow> pystr) \<Rightarrow> xml list \<Rightarrow> py_error + xml list" where
  "add_types nfkd nfc (Elem t a x cs y) =
     (if t = tei ''app''
      then (case app_type nfkd nfc (Elem t a x cs y) of
              Inl err \<Rightarrow> Inl err
            | Inr ty \<Rightarrow>
                (case add_types_list nfkd nfc cs of
                   Inl err \<Rightarrow> Inl err
                 | Inr cs' \<Rightarrow> Inr (Elem t (dict_set (str ''type'') ty a) x cs' y)))
      else (case add_types_list nfkd nfc cs of
              Inl err \<Rightarrow> Inl err
            | Inr cs' \<Rightarrow> Inr (Elem t a x cs' y)))"
| "add_types_list nfkd nfc [] = Inr []"
| "add_types_list nfkd nfc (c # cs) =
     (case add_types nfkd nfc c of
        Inl err \<Rightarrow> Inl err
      | Inr c' \<Rightarrow>
          (case add_types_list nfkd nfc cs of
             Inl err \<Rightarrow> Inl err
           | Inr cs' \<Rightarrow> Inr (c' # cs')))"

text \<open>
  The serialisations that \<open>add_types\<close> compares: fully normalized, plene-reduced and
  fully normalized, and the tokens of the normalized and of the plain serialisation.
\<close>

definition norm_ser :: "(pystr \<Rightarrow> pystr) \<Rightarrow> (pystr \<Rightarrow> pystr) \<Rightarrow> xml \<Rightarrow> pystr" where
  "norm_ser nfkd nfc r = format_text nfkd nfc all_accents (rdg_serialization r)"

definition plene_ser :: "(pystr \<Rightarrow> pystr) \<Rightarrow> (pystr \<Rightarrow> pystr) \<Rightarrow> xml \<Rightarrow> pystr" where
  "plene_ser nfkd nfc r =
     format_text nfkd nfc all_accents (strip_plene nfkd nfc (rdg_serialization r))"

definition norm_tokens :: "(pystr \<Rightarrow> pystr) \<Rightarrow> (pystr \<Rightarrow> pystr) \<Rightarrow> xml \<Rightarrow> pystr list" where
  "norm_tokens nfkd nfc r = py_split (norm_ser nfkd nfc r)"

definition raw_tokens :: "xml \<Rightarrow> pystr list" where
  "raw_tokens r = py_split (rdg_serialization r)"

text \<open>The \<open>type\<close> attribute of an element.\<close>

definition type_of :: "xml \<Rightarrow> pystr option" where
  "type_of e = el_get e (str ''type'')"

text \<open>
  The \<open>type\<close> attribute of every \<open>app\<close> of the document after \<open>add_types\<close>, in
  document order.
\<close>

definition app_types ::
  "(pystr \<Rightarrow> pystr) \<Rightarrow> (pystr \<Rightarrow> pystr) \<Rightarrow> xml \<Rightarrow> py_error + pystr option list" where
  "app_types nfkd nfc root =
     (case add_types nfkd nfc root of
        Inl err \<Rightarrow> Inl err
      | Inr root' \<Rightarrow> Inr (map type_of (xpath_all ''app'' root')))"

text \<open>A word element with the given text, for examples with Hebrew letters.\<close>

definition word_of :: "pystr \<Rightarrow> xml" where
  "word_of s = Elem (tei ''w'') [] (Some s) [] None"

text \<open>
  The fields of a collator that the second part of \<open>collate\<close> reads: the level of
  division, the identifier of the lemma witness (\<open>None\<close> before a witness was read), the
  witness identifiers in the order they were added, and for each witness the indices
  of the divisions for which it has tokens (the keys of its entry in
  \<open>tokens_by_witness\<close>).
\<close>

record collator =
  level :: pystr
  lemma_id :: "pystr option"
  witnesses :: "pystr list"
  tokens_by_witness :: "(pystr \<times> pystr list) list"

text \<open>The test for a textual division at the grouping level that has an index.\<close>

definition is_division :: "collator \<Rightarrow> xml \<Rightarrow> bool" where
  "is_division c child \<longleftrightarrow>
     raw_tag (tag child) = str ''milestone'' \<and>
     (case el_get child (str ''unit'') of
        None \<Rightarrow> False
      | Some u \<Rightarrow> u = level c \<or> u = str ''incipit'' \<or> u = str ''explicit'') \<and>
     el_get child (str ''n'') \<noteq> None"

text \<open>The witnesses among \<open>ws\<close> that are extant at division \<open>div_n\<close>.\<close>

fun extant_for :: "collator \<Rightarrow> pystr \<Rightarrow> pystr list \<Rightarrow> py_error + pystr list" where
  "extant_for c div_n [] = Inr []"
| "extant_for c div_n (w # ws) =
     (case map_of (tokens_by_witness c) w of
        None \<Rightarrow> Inl KeyError
      | Some extant_divs \<Rightarrow>
          (case extant_for c div_n ws of
             Inl err \<Rightarrow> Inl err
           | Inr r \<Rightarrow> Inr (if div_n \<in> set extant_divs then w # r else r)))"

text \<open>
  The two nested loops that remove from \<open>uncovered\<close> every witness named by a reading:
  over the references of one \<open>wit\<close> attribute, and over the readings.
\<close>

fun remove_refs :: "pystr set \<Rightarrow> pystr list \<Rightarrow> py_error + pystr set" where
  "remove_refs uncovered [] = Inr uncovered"
| "remove_refs uncovered (wit_ref # refs) =
     (let witness = py_replace (str ''#'') [] wit_ref
      in if witness \<in> uncovered then remove_refs (uncovered - {witness}) refs
         else Inl KeyError)"

fun remove_covered :: "pystr set \<Rightarrow> xml list \<Rightarrow> py_error + pystr set" where
  "remove_covered uncovered [] = Inr uncovered"
| "remove_covered uncovered (rdg # rdgs) =
     (case el_get rdg (str ''wit'') of
        None \<Rightarrow> Inl AttributeError
      | Some refs \<Rightarrow>
          (case remove_refs uncovered (py_split refs) of
             Inl err \<Rightarrow> Inl err
           | Inr uncovered' \<Rightarrow> remove_covered uncovered' rdgs))"

text \<open>The empty reading for the witnesses that are not covered.\<close>

definition omit_rdg_wits :: "collator \<Rightarrow> pystr set \<Rightarrow> pystr list" where
  "omit_rdg_wits c uncovered =
     map (\<lambda>w. str ''#'' @ w) (filter (\<lambda>w. w \<in> uncovered) (witnesses c))"

definition omit_rdg :: "collator \<Rightarrow> pystr set \<Rightarrow> xml" where
  "omit_rdg c uncovered =
     Elem (tei ''rdg'') [(str ''wit'', py_join (str '' '') (omit_rdg_wits c uncovered))] None [] None"

text \<open>What the loop does to an apparatus, given the witnesses extant at it.\<close>

definition cover_app :: "collator \<Rightarrow> pystr list \<Rightarrow> xml \<Rightarrow> py_error + xml" where
  "cover_app c extant_witnesses child =
     (case remove_covered (set extant_witnesses) (xpath_desc ''rdg'' child) of
        Inl err \<Rightarrow> Inl err
      | Inr uncovered \<Rightarrow>
          if uncovered = {} then Inr child
          else (case lemma_id c of
                  None \<Rightarrow> Inl TypeError
                | Some l \<Rightarrow>
                    if str ''#'' @ l \<in> set (omit_rdg_wits c uncovered)
                    then (if children child = [] then Inl IndexError
                          else Inr (with_children child (omit_rdg c uncovered # children child)))
                    else Inr (with_children child (children child @ [omit_rdg c uncovered]))))"

text \<open>
  The loop over the children of the collation, with the list of extant witnesses
  carried along.
\<close>

fun omission_loop :: "collator \<Rightarrow> pystr list \<Rightarrow> xml list \<Rightarrow> py_error + xml list" where
  "omission_loop c extant_witnesses [] = Inr []"
| "omission_loop c extant_witnesses (child # rest) =
     (if is_division c child
      then (case el_get child (str ''n'') of
              None \<Rightarrow> Inl TypeError
            | Some div_n \<Rightarrow>
                (case extant_for c div_n (witnesses c) of
                   Inl err \<Rightarrow> Inl err
                 | Inr ext \<Rightarrow>
                     (case omission_loop c ext rest of
                        Inl err \<Rightarrow> Inl err
                      | Inr rest' \<Rightarrow> Inr (child # rest'))))
      else if raw_tag (tag child) = str ''app''
      then (case cover_app c extant_witnesses child of
              Inl err \<Rightarrow> Inl err
            | Inr child' \<Rightarrow>
                (case omission_loop c extant_witnesses rest of
                   Inl err \<Rightarrow> Inl err
                 | Inr rest' \<Rightarrow> Inr (child' # rest')))
      else (case omission_loop c extant_witnesses rest of
              Inl err \<Rightarrow> Inl err
            | Inr rest' \<Rightarrow> Inr (child # rest')))"

text \<open>
  The second part of \<open>collate\<close>, on the children of the assembled collation: the
  children after the empty readings were added.
\<close>

definition add_omissions :: "collator \<Rightarrow> xml list \<Rightarrow> py_error + xml list" where
  "add_omissions c collation = omission_loop c [] collation"

text \<open>
  The witnesses named by the readings of an apparatus, as the loop reads them (the
  references of every \<open>wit\<close> attribute, without \<open>#\<close>), and the witnesses extant at a
  division.
\<close>

definition covered_witnesses :: "xml \<Rightarrow> pystr set" where
  "covered_witnesses app =
     set (concat (map (\<lambda>r. map (py_replace (str ''#'') []) (wit_refs r)) (xpath_desc ''rdg'' app)))"

definition extant_set :: "collator \<Rightarrow> pystr \<Rightarrow> pystr set" where
  "extant_set c div_n =
     {w \<in> set (witnesses c). \<exists>divs. map_of (tokens_by_witness c) w = Some divs \<and> div_n \<in> set divs}"

text \<open>
  The index of the last division among a list of children, and what the loop is to
  have done to an apparatus \<open>app\<close> at which the witnesses \<open>ext\<close> are extant: the
  readings named witnesses of \<open>ext\<close> only, the result \<open>app'\<close> names exactly \<open>ext\<close>, and
  \<open>app'\<close> is \<open>app\<close> itself when nothing was left uncovered, and otherwise \<open>app\<close> with
  the empty reading for the uncovered witnesses as its first child when the lemma
  witness is among them and as its last child when not.
\<close>

definition last_division :: "collator \<Rightarrow> xml list \<Rightarrow> pystr option" where
  "last_division c cs =
     (case filter (is_division c) cs of [] \<Rightarrow> None | d # ds \<Rightarrow> el_get (last (d # ds)) (str ''n''))"

definition app_covered :: "collator \<Rightarrow> pystr set \<Rightarrow> xml \<Rightarrow> xml \<Rightarrow> bool" where
  "app_covered c ext app app' \<longleftrightarrow>
     covered_witnesses app \<subseteq> ext \<and> covered_witnesses app' = ext \<and>
     (if ext - covered_witnesses app = {} then app' = app
      else \<exists>l. lemma_id c = Some l \<and>
             app' = (if l \<in> ext - covered_witnesses app
                     then with_children app
                            (omit_rdg c (ext - covered_witnesses app) # children app)
                     else with_children app
                            (children app @ [omit_rdg c (ext - covered_witnesses app)])))"

text \<open>The witnesses extant after a list of children, starting from the set \<open>E\<close>.\<close>

definition extant_after :: "collator \<Rightarrow> pystr set \<Rightarrow> xml list \<Rightarrow> pystr set" where
  "extant_after c E cs = (case last_division c cs of None \<Rightarrow> E | Some d \<Rightarrow> extant_set c d)"

text \<open>
  A collator with the witnesses \<open>A\<close> (the lemma), \<open>B\<close> and \<open>C\<close>, of which \<open>B\<close> is
  extant in the first verse only, and a collation of two verses.
\<close>

definition example_collator :: collator where
  "example_collator =
     \<lparr>level = str ''verse'', lemma_id = Some (str ''A''),
      witnesses = [str ''A'', str ''B'', str ''C''],
      tokens_by_witness =
        [(str ''A'', [str ''v1'', str ''v2'']), (str ''B'', [str ''v1'']),
         (str ''C'', [str ''v1'', str ''v2''])]\<rparr>"

definition milestone :: "string \<Rightarrow> string \<Rightarrow> xml" where
  "milestone u n = Elem (tei ''milestone'') [(str ''unit'', str u), (str ''n'', str n)] None [] None"

definition example_collation :: "xml list" where
  "example_collation =
     [milestone ''verse'' ''v1'',
      el ''app'' [rdg_el ''#A'' [word ''a''], rdg_el ''#C'' [word ''c'']],
      milestone ''verse'' ''v2'',
      el ''app'' [rdg_el ''#C'' [word ''c'']]]"


text \<open>
  An element without the attributes on it and below it: what the types and the indices
  are computed from, apart from the attributes of the \<open>divGen\<close> elements.
\<close>

fun skeleton :: "xml \<Rightarrow> xml" where
  "skeleton (Elem t a x cs y) = Elem t [] x (map skeleton cs) y"

text \<open>
  An element on which \<open>add_types\<close> has nothing to change: every \<open>app\<close> on it and
  below it has its type already.
\<close>

fun typed :: "(pystr \<Rightarrow> pystr) \<Rightarrow> (pystr \<Rightarrow> pystr) \<Rightarrow> xml \<Rightarrow> bool" where
  "typed nfkd nfc (Elem t a x cs y) \<longleftrightarrow>
     (t = tei ''app'' \<longrightarrow>
        (case app_type nfkd nfc (Elem t a x cs y) of
           Inl err \<Rightarrow> False
         | Inr ty \<Rightarrow> dict_set (str ''type'') ty a = a)) \<and>
     (\<forall>c\<in>set cs. typed nfkd nfc c)"





text \<open>
  The fields of a labeler that has read a book, a chapter and a verse division with the
  indices \<open>b\<close>, \<open>k\<close> and \<open>v\<close>, and whose word index stands at \<open>i\<close>.
\<close>

definition at_position :: "pystr \<Rightarrow> pystr \<Rightarrow> pystr \<Rightarrow> int \<Rightarrow> lab_state" where
  "at_position b k v i =
     \<lparr>div_hierarchy = [str ''book'', str ''chapter'', str ''verse'', str ''w''],
      div_indices = [(str ''book'', b), (str ''chapter'', k), (str ''verse'', v),
                     (str ''w'', py_str_int i)]\<rparr>"

section \<open>Properties of the segmenter\<close>

lemma raw_tag_seg: "raw_tag (tei ''seg'') = str ''seg''"
  by (simp add: raw_tag_def tei_def tei_ns_def str_def)

lemma desegment_append: "desegment (xs @ ys) = desegment xs @ desegment ys"
  by (induction xs) auto

lemma make_seg_sel [simp]:
  "raw_tag (tag (make_seg ty n els)) = str ''seg''" "children (make_seg ty n els) = els"
  by (simp_all add: make_seg_def raw_tag_seg)

lemma desegment_make_seg: "desegment [make_seg ty n els] = els"
  by simp

text \<open>
  The loop invariant: the segments sealed so far, desegmented, followed by the queue,
  are exactly the children consumed so far.
\<close>

lemma segment_step_content:
  "desegment (segmented_body (segment_step T st c)) @ segment_elements (segment_step T st c)
     = desegment (segmented_body st) @ segment_elements st @ [c]"
  by (simp add: segment_step_def Let_def desegment_append)

lemma segment_loop_content:
  "desegment (segmented_body (segment_loop T st cs)) @ segment_elements (segment_loop T st cs)
     = desegment (segmented_body st) @ segment_elements st @ cs"
proof (induction cs arbitrary: st)
  case Nil
  show ?case by simp
next
  case (Cons c cs)
  show ?case
    using Cons.IH [of "segment_step T st c"] segment_step_content [of T st c] by simp
qed

lemma segment_step_queue: "segment_elements (segment_step T st c) \<noteq> []"
  by (simp add: segment_step_def Let_def)

lemma segment_loop_queue:
  "cs \<noteq> [] \<or> segment_elements st \<noteq> [] \<Longrightarrow> segment_elements (segment_loop T st cs) \<noteq> []"
proof (induction cs arbitrary: st)
  case Nil
  then show ?case by simp
next
  case (Cons c cs)
  show ?case using Cons.IH [of "segment_step T st c"] segment_step_queue [of T st c] by simp
qed

text \<open>
  Desegmenting a segmented body gives back the body without the elements that were
  still queued at the end of the loop, and for a non-empty body that queue is never
  empty: the last segment is lost.
\<close>

lemma desegment_segment_prefix:
  "desegment (segment T body) @ segment_elements (segment_loop T seg_init body) = body"
  using segment_loop_content [of T seg_init body] by (simp add: segment_def seg_init_def)

lemma desegment_segment_loses:
  assumes "body \<noteq> []"
  shows "desegment (segment T body) \<noteq> body"
proof
  assume eq: "desegment (segment T body) = body"
  have "segment_elements (segment_loop T seg_init body) \<noteq> []"
    using assms segment_loop_queue [of body seg_init T] by simp
  moreover have "body @ segment_elements (segment_loop T seg_init body) = body"
    using desegment_segment_prefix [of T body] eq by simp
  ultimately show False by simp
qed

text \<open>
  C1. For a body of two words and no ignored tag, segmenting seals the first word into a
  segment and never seals the second, so desegmenting returns the first word only: the
  round trip does not give the body back.
\<close>

theorem segment_desegment_drops_last:
  "desegment (segment {} [Elem (tei ''w'') [] (Some (str ''a'')) [] None,
                          Elem (tei ''w'') [] (Some (str ''b'')) [] None])
     = [Elem (tei ''w'') [] (Some (str ''a'')) [] None]
   \<and> desegment (segment {} [Elem (tei ''w'') [] (Some (str ''a'')) [] None,
                            Elem (tei ''w'') [] (Some (str ''b'')) [] None])
     \<noteq> [Elem (tei ''w'') [] (Some (str ''a'')) [] None,
         Elem (tei ''w'') [] (Some (str ''b'')) [] None]"
proof -
  have rt: "raw_tag (tei ''w'') = str ''w''"
    by (simp add: raw_tag_def tei_def tei_ns_def str_def)
  have "segment {} [Elem (tei ''w'') [] (Some (str ''a'')) [] None,
                    Elem (tei ''w'') [] (Some (str ''b'')) [] None]
        = [make_seg (str ''w'') (digits_of 0) [Elem (tei ''w'') [] (Some (str ''a'')) [] None]]"
    by (simp add: segment_def seg_init_def segment_step_def Let_def rt str_def)
  then show ?thesis
    by simp
qed

lemma tei_eq [simp]: "tei a = tei b \<longleftrightarrow> a = b"
  unfolding tei_def str_def by (simp add: inj_map_eq_map [OF inj_of_char])

lemma raw_tag_names:
  "raw_tag (tei ''body'') = str ''body''" "raw_tag (tei ''divGen'') = str ''divGen''"
  "raw_tag (tei ''w'') = str ''w''" "raw_tag (tei ''app'') = str ''app''"
  "raw_tag (tei ''lem'') = str ''lem''" "raw_tag (tei ''rdg'') = str ''rdg''"
  by (simp_all add: raw_tag_def tei_def tei_ns_def str_def)

lemmas lab_eval = app_ns_def add_indices.simps el_def divGen_def word_def raw_tag_names str_def
  divgen_update_def el_get_def div_abbreviations_def lab_init_def from_first_def
  word_update_def ensure_w_def bump_w_def py_int_def py_strip_def py_isspace_def parse_nat_def is_digit_def
  py_str_int_def digits_of.simps xpath_desc_def xpath_all_def app_label_def dict_eq_def set_lem_children_def
  el_set_def with_children_def


text \<open>
  A document with book 04, chapter 21, verse 2 and two words before the apparatus, read
  by a new labeler: an apparatus whose lemma is the one word at index 6 is labelled
  \<open>B04K21V2U6\<close>; with two words in the lemma (indices 6 and 8) it is labelled
  \<open>B04K21V2U6-U8\<close>; with three (indices 6, 8 and 10) it is labelled \<open>B04K21V2U6-U10\<close>.
\<close>

lemma add_indices_document_labels:
  "app_ns (el ''body'' [divGen ''book'' ''B04'', divGen ''chapter'' ''B04K21'',
       divGen ''verse'' ''B04K21V2'', word ''a'', word ''b'',
       el ''app'' [el ''lem'' [word ''c''], el ''rdg'' [word ''x'']]])
     = Inr [Some (str ''B04K21V2U6'')]
   \<and> app_ns (el ''body'' [divGen ''book'' ''B04'', divGen ''chapter'' ''B04K21'',
       divGen ''verse'' ''B04K21V2'', word ''a'', word ''b'',
       el ''app'' [el ''lem'' [word ''c'', word ''d''], el ''rdg'' [word ''x'']]])
     = Inr [Some (str ''B04K21V2U6-U8'')]
   \<and> app_ns (el ''body'' [divGen ''book'' ''B04'', divGen ''chapter'' ''B04K21'',
       divGen ''verse'' ''B04K21V2'', word ''a'', word ''b'',
       el ''app'' [el ''lem'' [word ''c'', word ''d'', word ''e''], el ''rdg'' [word ''x'']]])
     = Inr [Some (str ''B04K21V2U6-U10'')]"
  by (simp add: lab_eval)

text \<open>
  C5, as stated: the three-word span starting at word index 6 is not labelled
  \<open>B04K21V2U6-U8\<close>.
\<close>

theorem add_indices_three_word_span_not_U8:
  "app_ns (el ''body'' [divGen ''book'' ''B04'', divGen ''chapter'' ''B04K21'',
       divGen ''verse'' ''B04K21V2'', word ''a'', word ''b'',
       el ''app'' [el ''lem'' [word ''c'', word ''d'', word ''e''], el ''rdg'' [word ''x'']]])
     \<noteq> Inr [Some (str ''B04K21V2U6-U8'')]"
  by (simp add: lab_eval)

lemma validate_rdgs_eq:
  "validate_rdgs n k acc rdgs =
     (fst acc \<and> list_all (\<lambda>r. count_segs r = k) rdgs,
      snd acc @ map (\<lambda>r. mismatch_message n) (filter (\<lambda>r. count_segs r \<noteq> k) rdgs))"
  by (induction rdgs arbitrary: acc) auto

lemma validate_apps_eq:
  assumes "list_all (\<lambda>a. xpath_desc ''lem'' a \<noteq> []) apps"
  shows "validate_apps acc apps =
     Inr (fst acc \<and> list_all (\<lambda>a. list_all (\<lambda>r. count_segs r = count_segs (hd (xpath_desc ''lem'' a)))
                                  (xpath_desc ''rdg'' a)) apps,
          snd acc @ concat (map (\<lambda>a. map (\<lambda>r. mismatch_message (app_n_of a))
                 (filter (\<lambda>r. count_segs r \<noteq> count_segs (hd (xpath_desc ''lem'' a)))
                    (xpath_desc ''rdg'' a))) apps))"
  using assms
proof (induction apps arbitrary: acc)
  case Nil
  then show ?case by simp
next
  case (Cons a apps)
  from Cons.prems obtain l ls where l: "xpath_desc ''lem'' a = l # ls"
    by (cases "xpath_desc ''lem'' a") auto
  from Cons.prems have rest: "list_all (\<lambda>a. xpath_desc ''lem'' a \<noteq> []) apps" by simp
  show ?case
    by (simp add: l Cons.IH [OF rest] validate_rdgs_eq conj_assoc)
qed

text \<open>
  C2. When every apparatus of the document has a lemma reading, \<open>validate\<close> returns
  \<open>True\<close> exactly when, in every apparatus, every \<open>rdg\<close> holds as many \<open>divGen\<close>
  elements of type \<open>seg\<close> as the \<open>lem\<close> of that apparatus. It goes through every
  apparatus of the document and prints, for each reading that differs from its lemma, a
  line that names the index of the apparatus: the lines of all apparatuses, in document
  order.
\<close>

theorem validate_full_scan:
  assumes "\<forall>app\<in>set (xpath_all ''app'' root). xpath_desc ''lem'' app \<noteq> []"
  shows "validate root =
     Inr ((\<forall>app\<in>set (xpath_all ''app'' root). \<forall>rdg\<in>set (xpath_desc ''rdg'' app).
              count_segs rdg = count_segs (hd (xpath_desc ''lem'' app))),
          concat (map (\<lambda>app. map (\<lambda>rdg. mismatch_message (app_n_of app))
                 (filter (\<lambda>rdg. count_segs rdg \<noteq> count_segs (hd (xpath_desc ''lem'' app)))
                    (xpath_desc ''rdg'' app))) (xpath_all ''app'' root)))"
proof -
  have "list_all (\<lambda>a. xpath_desc ''lem'' a \<noteq> []) (xpath_all ''app'' root)"
    using assms by (simp add: list_all_iff)
  from validate_apps_eq [OF this, of "(True, [])"] show ?thesis
    by (simp add: validate_def list_all_iff)
qed

lemma find_wit_rdg_eq:
  assumes "list_all (\<lambda>r. el_get r (str ''wit'') \<noteq> None) rdgs"
  shows "find_wit_rdg (Some w) rdgs = Inr (find (\<lambda>r. str ''#'' @ w \<in> set (wit_refs r)) rdgs)"
  using assms by (induction rdgs) (auto simp: wit_refs_def)

lemma witness_children_eq:
  assumes "list_all (\<lambda>c. list_all (\<lambda>r. el_get r (str ''wit'') \<noteq> None) (xpath_desc ''rdg'' c)) cs"
  shows "witness_children (Some w) cs =
     Inr (concat (map (\<lambda>c. if raw_tag (tag c) = str ''app''
                           then (case find (\<lambda>r. str ''#'' @ w \<in> set (wit_refs r)) (xpath_desc ''rdg'' c) of
                                   None \<Rightarrow> [] | Some r \<Rightarrow> children r)
                           else [c]) cs))"
  using assms
  by (induction cs) (auto simp: wit_rdg_of_def find_wit_rdg_eq Element_def split: option.splits)

text \<open>
  C6, amended. When every reading below the children of the body has a \<open>wit\<close>
  attribute, \<open>get_witness_xml\<close> returns a projection for any witness identifier: an
  apparatus stands for the children of the first \<open>rdg\<close> (in document order) whose
  \<open>wit\<close> attribute holds the reference \<open>'#' + wit\<close>, and for nothing at all when no
  reading holds it; every other child of the body is copied.
\<close>

theorem get_witness_xml_projection:
  assumes "xpath_all ''text'' root = text # ts" and "xpath_desc ''body'' text = body # bs"
    and "\<forall>c\<in>set (children body). \<forall>r\<in>set (xpath_desc ''rdg'' c). el_get r (str ''wit'') \<noteq> None"
  shows "get_witness_xml root (Some w) =
     Inr (projection_tree (attrib text)
           (concat (map (\<lambda>c. if raw_tag (tag c) = str ''app''
                             then (case find (\<lambda>r. str ''#'' @ w \<in> set (wit_refs r)) (xpath_desc ''rdg'' c) of
                                     None \<Rightarrow> [] | Some r \<Rightarrow> children r)
                             else [c]) (children body))))"
proof -
  have "list_all (\<lambda>c. list_all (\<lambda>r. el_get r (str ''wit'') \<noteq> None) (xpath_desc ''rdg'' c)) (children body)"
    using assms(3) by (simp add: list_all_iff)
  from witness_children_eq [OF this, of w] show ?thesis
    by (simp add: get_witness_xml_def assms(1,2))
qed

lemmas xml_eval = el_def divGen_def word_def rdg_el_def xpath_desc_def xpath_all_def el_get_def
  raw_tag_names projection_tree_def witness_el_def seg_marker_def

lemma py_split_str: "py_split (str ''#A #B'') = [str ''#A'', str ''#B'']"  "py_split (str ''#C'') = [str ''#C'']"
  by (simp_all add: py_split_def str_def py_isspace_def)

text \<open>
  C6, as stated: no reading of the apparatus names witness \<open>D\<close>, and
  \<open>get_witness_xml\<close> still returns a projection, with nothing in the place of the
  apparatus.
\<close>

theorem get_witness_xml_unmatched_returns:
  "get_witness_xml (el ''TEI'' [el ''text'' [el ''body'' [word ''a'',
      el ''app'' [el ''lem'' [word ''b''], rdg_el ''#A #B'' [word ''b''], rdg_el ''#C'' [word ''c'']]]]])
     (Some (str ''D'')) = Inr (el ''TEI'' [el ''text'' [el ''body'' [word ''a'']]])"
  by (simp add: xml_eval get_witness_xml_def wit_rdg_of_def py_split_str Element_def) (simp add: str_def)

theorem get_witness_xml_projection_witness:
  "get_witness_xml (el ''TEI'' [el ''text'' [el ''body'' [word ''a'',
      el ''app'' [el ''lem'' [word ''b''], rdg_el ''#A #B'' [word ''b''], rdg_el ''#C'' [word ''c'']]]]])
     (Some (str ''B'')) = Inr (el ''TEI'' [el ''text'' [el ''body'' [word ''a'', word ''b'']]])"
proof -
  let ?app = "el ''app'' [el ''lem'' [word ''b''], rdg_el ''#A #B'' [word ''b''], rdg_el ''#C'' [word ''c'']]"
  let ?body = "el ''body'' [word ''a'', ?app]"
  let ?text = "el ''text'' [?body]"
  have t: "xpath_all ''text'' (el ''TEI'' [?text]) = ?text # []" by (simp add: xml_eval)
  have b: "xpath_desc ''body'' ?text = ?body # []" by (simp add: xml_eval)
  have w: "\<forall>c\<in>set (children ?body). \<forall>r\<in>set (xpath_desc ''rdg'' c). el_get r (str ''wit'') \<noteq> None"
    by (auto simp: xml_eval str_def)
  show ?thesis
    unfolding get_witness_xml_projection [OF t b w, of "str ''B''"]
    by (simp add: xml_eval wit_refs_def py_split_str) (simp add: str_def)
qed

theorem validate_full_scan_witness:
  "validate (el ''TEI'' [el ''text'' [el ''body'' [word ''a'',
      Elem (tei ''app'') [(str ''n'', str ''1'')] None [el ''lem'' [word ''b'', divGen ''seg'' ''''], rdg_el ''#A'' [word ''b'', divGen ''seg'' ''''], rdg_el ''#B'' [divGen ''seg'' '''', word ''c'']] None,
      Elem (tei ''app'') [(str ''n'', str ''2'')] None [el ''lem'' [word ''b''], rdg_el ''#A'' [word ''b''], rdg_el ''#B'' [divGen ''seg'' '''', word ''c'']] None,
      Elem (tei ''app'') [(str ''n'', str ''3'')] None [el ''lem'' [word ''b''], rdg_el ''#A'' [divGen ''seg'' '''', word ''b''], rdg_el ''#B'' [word ''c'']] None]]])
    = Inr (False, [mismatch_message (str ''2''), mismatch_message (str ''3'')])"
proof -
  let ?doc = "el ''TEI'' [el ''text'' [el ''body'' [word ''a'',
      Elem (tei ''app'') [(str ''n'', str ''1'')] None [el ''lem'' [word ''b'', divGen ''seg'' ''''], rdg_el ''#A'' [word ''b'', divGen ''seg'' ''''], rdg_el ''#B'' [divGen ''seg'' '''', word ''c'']] None,
      Elem (tei ''app'') [(str ''n'', str ''2'')] None [el ''lem'' [word ''b''], rdg_el ''#A'' [word ''b''], rdg_el ''#B'' [divGen ''seg'' '''', word ''c'']] None,
      Elem (tei ''app'') [(str ''n'', str ''3'')] None [el ''lem'' [word ''b''], rdg_el ''#A'' [divGen ''seg'' '''', word ''b''], rdg_el ''#B'' [word ''c'']] None]]]"
  have h: "\<forall>app\<in>set (xpath_all ''app'' ?doc). xpath_desc ''lem'' app \<noteq> []"
    by (simp add: xml_eval)
  show ?thesis
    unfolding validate_full_scan [OF h]
    by (simp add: xml_eval count_segs_def app_n_of_def str_def del: set_filter)
qed

lemma first_seen_snoc:
  "first_seen (xs @ [x]) = (if x \<in> set (first_seen xs) then first_seen xs else first_seen xs @ [x])"
  by (simp add: first_seen_def)

lemma first_seen_Nil [simp]: "first_seen [] = []"
  by (simp add: first_seen_def)

lemma set_first_seen [simp]: "set (first_seen xs) = set xs"
  by (induction xs rule: rev_induct) (auto simp: first_seen_snoc)

lemma distinct_first_seen [simp]: "distinct (first_seen xs)"
  by (induction xs rule: rev_induct) (auto simp: first_seen_snoc)

lemma group_loop_snoc:
  "group_loop ser acc (ps @ [p]) = group_loop ser (group_loop ser acc ps) [p]"
  by (induction ps arbitrary: acc) (auto split: option.splits)

lemma map_of_keyed:
  "map_of (map (\<lambda>k. (k, f k)) ks) s = (if s \<in> set ks then Some (f s) else None)"
  by (induction ks) auto

lemma dict_set_keyed_new:
  "s \<notin> set ks \<Longrightarrow> dict_set s v (map (\<lambda>k. (k, f k)) ks) = map (\<lambda>k. (k, f k)) ks @ [(s, v)]"
  by (induction ks) auto

lemma dict_set_keyed_old:
  "s \<in> set ks \<Longrightarrow> distinct ks \<Longrightarrow>
   dict_set s v (map (\<lambda>k. (k, f k)) ks) = map (\<lambda>k. (k, (f(s := v)) k)) ks"
  by (induction ks) auto

lemma group_loop_eq:
  "group_loop ser ([], []) ps =
     (map (representative ser ps) (first_seen (map (\<lambda>p. ser (snd p)) ps)),
      map (\<lambda>s. (s, supporters ser ps s)) (first_seen (map (\<lambda>p. ser (snd p)) ps)))"
proof (induction ps rule: rev_induct)
  case Nil
  show ?case by simp
next
  case (snoc p ps)
  obtain w x where p: "p = (w, x)" by (cases p)
  let ?keys = "first_seen (map (\<lambda>p. ser (snd p)) ps)"
  let ?R = "map (representative ser ps) ?keys"
  let ?S = "map (\<lambda>s. (s, supporters ser ps s)) ?keys"
  have gl: "group_loop ser ([], []) (ps @ [p]) = group_loop ser (?R, ?S) [(w, x)]"
    by (simp only: group_loop_snoc snoc.IH p)
  have rep: "map (representative ser (ps @ [p])) ?keys = ?R"
  proof (rule map_cong [OF refl])
    fix s assume "s \<in> set ?keys"
    then have "filter (\<lambda>p. ser (snd p) = s) ps \<noteq> []"
      by (auto simp: filter_empty_conv)
    then show "representative ser (ps @ [p]) s = representative ser ps s"
      by (simp add: representative_def)
  qed
  show ?case
  proof (cases "ser x \<in> set ?keys")
    case True
    have k: "first_seen (map (\<lambda>p. ser (snd p)) (ps @ [p])) = ?keys"
      using True by (simp add: first_seen_snoc p)
    have m: "map_of ?S (ser x) = Some (supporters ser ps (ser x))"
      using True by (simp only: map_of_keyed if_True)
    have "dict_set (ser x) (supporters ser ps (ser x) @ [w]) ?S
          = map (\<lambda>k. (k, ((supporters ser ps)(ser x := supporters ser ps (ser x) @ [w])) k)) ?keys"
      by (rule dict_set_keyed_old [OF True distinct_first_seen])
    also have "\<dots> = map (\<lambda>s. (s, supporters ser (ps @ [p]) s)) ?keys"
      by (rule map_cong [OF refl]) (auto simp: supporters_def p)
    finally have d: "dict_set (ser x) (supporters ser ps (ser x) @ [w]) ?S
          = map (\<lambda>s. (s, supporters ser (ps @ [p]) s)) ?keys" .
    show ?thesis
      unfolding gl k
      by (simp only: group_loop.simps m d rep option.case fst_conv snd_conv)
  next
    case False
    then have new: "\<forall>q\<in>set ps. ser (snd q) \<noteq> ser x" by force
    have k: "first_seen (map (\<lambda>p. ser (snd p)) (ps @ [p])) = ?keys @ [ser x]"
      using False by (simp add: first_seen_snoc p)
    have m: "map_of ?S (ser x) = None"
      using False by (simp only: map_of_keyed if_False)
    have repx: "representative ser (ps @ [p]) (ser x) = x"
      using new by (simp add: representative_def p filter_empty_conv [THEN iffD2])
    have sup: "map (\<lambda>s. (s, supporters ser (ps @ [p]) s)) ?keys = ?S"
      using False by (intro map_cong [OF refl]) (auto simp: supporters_def p)
    have supx: "supporters ser (ps @ [p]) (ser x) = [w]"
      using new by (simp add: supporters_def p filter_empty_conv [THEN iffD2])
    have d: "dict_set (ser x) [w] ?S = ?S @ [(ser x, [w])]"
      by (rule dict_set_keyed_new [OF False])
    show ?thesis
      unfolding gl k
      by (simp only: group_loop.simps m d rep repx sup supx option.case fst_conv snd_conv
          map_append list.map)
  qed
qed

lemma ser_with_ids [simp]: "map (\<lambda>p. ser (snd p)) (with_ids ps) = map (\<lambda>p. ser (snd p)) ps"
  by (simp add: with_ids_def comp_def)

lemma filter_with_ids:
  "filter (\<lambda>p. ser (snd p) = s) (with_ids ps) = with_ids (filter (\<lambda>p. ser (snd p) = s) ps)"
  by (simp add: with_ids_def filter_map comp_def)

lemma supporters_with_ids:
  "supporters ser (with_ids ps) s = map Some (supporters ser ps s)"
  by (simp add: supporters_def filter_with_ids) (simp add: with_ids_def comp_def)

lemma representative_with_ids:
  "s \<in> set (map (\<lambda>p. ser (snd p)) ps) \<Longrightarrow>
   representative ser (with_ids ps) s = representative ser ps s"
proof -
  assume "s \<in> set (map (\<lambda>p. ser (snd p)) ps)"
  then have ne: "filter (\<lambda>p. ser (snd p) = s) ps \<noteq> []"
    by (auto simp: filter_empty_conv)
  have "representative ser (with_ids ps) s = snd (hd (with_ids (filter (\<lambda>p. ser (snd p) = s) ps)))"
    by (simp only: representative_def filter_with_ids)
  also have "\<dots> = snd (hd (filter (\<lambda>p. ser (snd p) = s) ps))"
    using ne by (simp add: with_ids_def hd_map)
  finally show ?thesis by (simp only: representative_def)
qed

lemma ser_representative:
  assumes "s \<in> set (map (\<lambda>p. ser (snd p)) ps)"
  shows "ser (representative ser ps s) = s"
proof -
  from assms have ne: "filter (\<lambda>p. ser (snd p) = s) ps \<noteq> []"
    by (auto simp: filter_empty_conv)
  then have "hd (filter (\<lambda>p. ser (snd p) = s) ps) \<in> set (filter (\<lambda>p. ser (snd p) = s) ps)"
    by (rule hd_in_set)
  then show ?thesis by (simp add: representative_def)
qed

lemma wit_ref_list_Some: "wit_ref_list (map Some ws) = Inr (map (\<lambda>w. str ''#'' @ w) ws)"
  by (induction ws) auto

lemma build_rdgs_eq:
  assumes "set ks \<subseteq> set (map (\<lambda>p. ser (snd p)) ps)"
  shows "build_rdgs ser
           (map (\<lambda>s. (s, supporters ser (with_ids ps) s)) (first_seen (map (\<lambda>p. ser (snd p)) ps)))
           (map (representative ser (with_ids ps)) ks)
         = Inr (map (group_rdg ser ps) ks)"
  using assms
proof (induction ks)
  case Nil
  show ?case by simp
next
  case (Cons k ks)
  from Cons.prems have k: "k \<in> set (map (\<lambda>p. ser (snd p)) ps)" by simp
  from Cons.prems have ks: "set ks \<subseteq> set (map (\<lambda>p. ser (snd p)) ps)" by simp
  have r: "representative ser (with_ids ps) k = representative ser ps k"
    by (rule representative_with_ids [OF k])
  have sr: "ser (representative ser ps k) = k"
    by (rule ser_representative [OF k])
  have kin: "k \<in> set (first_seen (map (\<lambda>p. ser (snd p)) ps))"
    using k by simp
  have m: "map_of (map (\<lambda>s. (s, supporters ser (with_ids ps) s))
              (first_seen (map (\<lambda>p. ser (snd p)) ps))) k
           = Some (map Some (supporters ser ps k))"
    using kin by (simp only: map_of_keyed if_True supporters_with_ids)
  show ?case
    using Cons.IH [OF ks]
    by (simp add: r sr m wit_ref_list_Some group_rdg_def)
qed

lemma update_segment_eq:
  "update_segment ser (with_ids ps) lem_seg = Inr (grouped_segment ser ps lem_seg)"
proof -
  have "set (first_seen (map (\<lambda>p. ser (snd p)) ps)) \<subseteq> set (map (\<lambda>p. ser (snd p)) ps)"
    by simp
  from build_rdgs_eq [OF this] show ?thesis
    by (simp add: update_segment_def group_loop_eq grouped_segment_def)
qed

lemma segs_at_eq:
  assumes "\<forall>w\<in>set ws. i < length (snd w)"
  shows "segs_at i ws = Inr (map (\<lambda>w. (fst w, snd w ! i)) ws)"
  using assms by (induction ws) auto

lemma update_loop_eq:
  assumes "\<forall>t\<in>set trees. i + length lsegs \<le> length (segs_of t)"
    and "length wits = length trees"
  shows "update_loop ser (zip (map Some wits) (map segs_of trees)) i lsegs
         = Inr (concat (map (\<lambda>j. grouped_segment ser
                                   (zip wits (map (\<lambda>t. segs_of t ! (i + j)) trees)) (lsegs ! j))
                            [0..<length lsegs]))"
  using assms(1)
proof (induction lsegs arbitrary: i)
  case Nil
  show ?case by simp
next
  case (Cons l ls)
  let ?ws = "zip (map Some wits) (map segs_of trees)"
  have inb: "\<forall>w\<in>set ?ws. i < length (snd w)"
  proof
    fix w assume w: "w \<in> set ?ws"
    obtain a b where ab: "w = (a, b)" by (cases w)
    from w have "b \<in> set (map segs_of trees)" unfolding ab by (rule set_zip_rightD)
    then obtain t where "t \<in> set trees" "snd w = segs_of t" using ab by auto
    with Cons.prems show "i < length (snd w)" by fastforce
  qed
  have ps: "map (\<lambda>w. (fst w, snd w ! i)) ?ws = with_ids (zip wits (map (\<lambda>t. segs_of t ! i) trees))"
    using assms(2)
  proof (induction wits trees rule: list_induct2)
    case Nil
    show ?case by (simp add: with_ids_def)
  next
    case (Cons w ws t ts)
    then show ?case by (simp add: with_ids_def)
  qed
  have nxt: "\<forall>t\<in>set trees. Suc i + length ls \<le> length (segs_of t)"
    using Cons.prems by simp
  have shift: "map (\<lambda>j. grouped_segment ser (zip wits (map (\<lambda>t. segs_of t ! (i + j)) trees)) ((l # ls) ! j))
                 [0..<length (l # ls)]
        = grouped_segment ser (zip wits (map (\<lambda>t. segs_of t ! i) trees)) l #
          map (\<lambda>j. grouped_segment ser (zip wits (map (\<lambda>t. segs_of t ! (Suc i + j)) trees)) (ls ! j))
                 [0..<length ls]"
    by (simp add: upt_conv_Cons map_Suc_upt [symmetric] del: upt_Suc)
  show ?case
    unfolding shift
    by (simp add: segs_at_eq [OF inb] ps update_segment_eq Cons.IH [OF nxt])
qed

lemma witness_trees_length: "witness_trees root ws = Inr ts \<Longrightarrow> length ts = length ws"
  by (induction ws arbitrary: ts) (auto split: sum.splits)

lemma group_rdg_fun:
  "group_rdg ser ps =
     (\<lambda>s. Elem (tei ''rdg'')
            [(str ''wit'', py_join (str '' '') (map (\<lambda>w. str ''#'' @ w) (supporters ser ps s)))]
            None (children (representative ser ps s)) None)"
  by (rule ext) (simp add: group_rdg_def)

text \<open>
  C3. For a document whose witnesses all have identifiers, whose projections can be
  taken, whose witnesses have at least as many segments as the lemma, and which holds no
  \<open>seg\<close> element of its own, \<open>update_boundaries\<close> rebuilds the body segment index by
  segment index. At index \<open>i\<close> the witnesses are grouped by the serialisation of their
  \<open>i\<close>-th segment, the groups in the order in which they are first met. With exactly
  one group the children of the lemma's segment are copied and no apparatus is made;
  otherwise one \<open>app\<close> is made, whose first child is a \<open>lem\<close> with the children of the
  lemma's segment, followed by one \<open>rdg\<close> for each group, with the children of the
  segment of the group's first witness and a \<open>wit\<close> attribute that lists the group's
  identifiers in the order of the witness list.
\<close>

theorem update_boundaries_groups:
  assumes "get_witnesses root = Inr (map Some wits)"
    and "get_lemma_xml root = Inr lemma_xml"
    and "witness_trees root (map Some wits) = Inr trees"
    and "\<forall>t\<in>set trees. length (segs_of lemma_xml) \<le> length (segs_of t)"
    and "xpath_all ''text'' root = text # ts"
    and "first_body_is_child (children text)"
    and "xpath_all ''seg'' root = []"
  shows "update_boundaries ser root =
     Inr (concat (map (\<lambda>i.
        let ps = zip wits (map (\<lambda>t. segs_of t ! i) trees);
            groups = first_seen (map (\<lambda>p. ser (snd p)) ps)
        in if length groups = 1 then children (segs_of lemma_xml ! i)
           else [Elem (tei ''app'') [] None
                   (Elem (tei ''lem'') [] None (children (segs_of lemma_xml ! i)) None #
                    map (\<lambda>s. Elem (tei ''rdg'')
                                [(str ''wit'',
                                  py_join (str '' '') (map (\<lambda>w. str ''#'' @ w) (supporters ser ps s)))]
                                None (children (representative ser ps s)) None) groups) None])
        [0..<length (segs_of lemma_xml)]))"
proof -
  have len: "length wits = length trees"
    using witness_trees_length [OF assms(3)] by simp
  have "\<forall>t\<in>set trees. 0 + length (segs_of lemma_xml) \<le> length (segs_of t)"
    using assms(4) by simp
  from update_loop_eq [OF this len, of ser]
  have loop: "update_loop ser (zip (map Some wits) (map segs_of trees)) 0 (segs_of lemma_xml)
      = Inr (concat (map (\<lambda>j. grouped_segment ser (zip wits (map (\<lambda>t. segs_of t ! j) trees))
                                  (segs_of lemma_xml ! j)) [0..<length (segs_of lemma_xml)]))"
    by simp
  have gs: "grouped_segment ser ps l =
      (if length (first_seen (map (\<lambda>p. ser (snd p)) ps)) = 1 then children l
       else [Elem (tei ''app'') [] None
               (Elem (tei ''lem'') [] None (children l) None #
                map (\<lambda>s. Elem (tei ''rdg'')
                            [(str ''wit'',
                              py_join (str '' '') (map (\<lambda>w. str ''#'' @ w) (supporters ser ps s)))]
                            None (children (representative ser ps s)) None)
                  (first_seen (map (\<lambda>p. ser (snd p)) ps))) None])" for ps l
    unfolding grouped_segment_def by (subst group_rdg_fun) (rule refl)
  show ?thesis
    by (simp add: update_boundaries_def assms(1,2,3,5,6) loop gs Let_def)
qed

lemma py_split_refs:
  "py_split (str ''#A #B'') = [str ''#A'', str ''#B'']" "py_split (str ''#C'') = [str ''#C'']"
  "py_split (str ''#A'') = [str ''#A'']" "py_split (str ''#B'') = [str ''#B'']"
  "py_split (str ''#A #B #C'') = [str ''#A'', str ''#B'', str ''#C'']"
  by (simp_all add: py_split_def str_def py_isspace_def)

lemma str_eq [simp]: "str a = str b \<longleftrightarrow> a = b"
  unfolding str_def by (simp add: inj_map_eq_map [OF inj_of_char])

lemma str_append: "str a @ str b = str (a @ b)"
  by (simp add: str_def)

lemma str_Cons_neq_Nil [simp]: "str (c # cs) \<noteq> []" "[] \<noteq> str (c # cs)"
  by (simp_all add: str_def)

lemma ex_wit: "get_witnesses example_doc = Inr (map Some [str ''A'', str ''B'', str ''C''])"
  by (simp add: example_doc_def get_witnesses_def xml_eval)

lemma ex_lem: "get_lemma_xml example_doc = Inr (projection_tree [] [word ''a'', seg_marker, word ''b'', seg_marker, word ''d''])"
  by (simp add: example_doc_def get_lemma_xml_def xml_eval)

lemma ex_trees: "witness_trees example_doc (map Some [str ''A'', str ''B'', str ''C'']) =
   Inr [projection_tree [] [word ''a'', seg_marker, word ''b'', seg_marker, word ''d''],
        projection_tree [] [word ''a'', seg_marker, word ''b'', seg_marker, word ''d''],
        projection_tree [] [word ''a'', seg_marker, word ''c'', seg_marker, word ''d'']]"
  by (simp add: example_doc_def get_witness_xml_def wit_rdg_of_def xml_eval py_split_refs str_append)

lemma tree_body_projection [simp]: "tree_body (projection_tree a cs) = cs"
  by (simp add: tree_body_def projection_tree_def)

lemma ex_segs:
  "segs_of (projection_tree [] [word ''a'', seg_marker, word x, seg_marker, word ''d''])
   = [el ''seg'' [word ''a''], el ''seg'' [word x], el ''seg'' [word ''d'']]"
  by (simp add: segs_of_def is_seg_marker_def xml_eval tree_body_def)

lemma to_string_word_neq:
  "to_string (word ''b'') \<noteq> to_string (word ''c'')" "to_string (word ''c'') \<noteq> to_string (word ''b'')"
  by (simp_all add: word_def str_def)

text \<open>
  Three witnesses, of which \<open>C\<close> alone differs at the second segment: the first and
  third segments are copied, and the second becomes an apparatus with two readings,
  \<open>#A #B\<close> and \<open>#C\<close>.
\<close>

theorem update_boundaries_groups_witness:
  "update_boundaries to_string example_doc =
     Inr [word ''a'',
          el ''app'' [el ''lem'' [word ''b''], rdg_el ''#A #B'' [word ''b''], rdg_el ''#C'' [word ''c'']],
          word ''d'']"
proof -
  let ?t = "\<lambda>x. projection_tree [] [word ''a'', seg_marker, word x, seg_marker, word ''d'']"
  have tx: "xpath_all ''text'' example_doc =
      el ''text'' [el ''body''
          [word ''a'', seg_marker,
           el ''app'' [el ''lem'' [word ''b''], rdg_el ''#A #B'' [word ''b''], rdg_el ''#C'' [word ''c'']],
           seg_marker, word ''d'']] # []"
    by (simp add: example_doc_def xml_eval)
  have bc: "first_body_is_child (children (el ''text'' [el ''body''
          [word ''a'', seg_marker,
           el ''app'' [el ''lem'' [word ''b''], rdg_el ''#A #B'' [word ''b''], rdg_el ''#C'' [word ''c'']],
           seg_marker, word ''d'']]))"
    by (simp add: xml_eval)
  have ns: "xpath_all ''seg'' example_doc = []"
    by (simp add: example_doc_def xml_eval)
  have inb: "\<forall>t\<in>set [?t ''b'', ?t ''b'', ?t ''c'']. length (segs_of (?t ''b'')) \<le> length (segs_of t)"
    by (simp add: ex_segs)
  have upt3: "[0..<3] = [0, 1, 2]" by (simp add: upt_rec)
  show ?thesis
    unfolding update_boundaries_groups [OF ex_wit ex_lem ex_trees inb tx bc ns]
    by (simp add: ex_segs upt3 Let_def first_seen_def supporters_def representative_def
        to_string_word_neq el_def rdg_el_def str_def py_join.simps)
qed

lemma count_segs_markers: "count_segs e = length (seg_markers_below e)"
  by (simp add: count_segs_def seg_markers_below_def)

lemma length_ce_segment_loop:
  "length (ce_segment_loop cur cs) = Suc (length (filter is_seg_marker cs))"
  by (induction cs arbitrary: cur) auto

lemma children_descendants: "c \<in> set (children e) \<Longrightarrow> c \<in> set (descendants e)"
  by (cases e) auto

lemma descendants_trans:
  "d \<in> set (descendants e) \<Longrightarrow> e \<in> set (descendants r) \<Longrightarrow> d \<in> set (descendants r)"
proof (induction r rule: descendants.induct)
  case (1 t a x cs y)
  from "1.prems"(2) obtain c where c: "c \<in> set cs" and e: "e = c \<or> e \<in> set (descendants c)"
    by auto
  have "d \<in> set (descendants c)"
  proof (cases "e = c")
    case True
    with "1.prems"(1) show ?thesis by simp
  next
    case False
    with e have "e \<in> set (descendants c)" by simp
    from "1.IH" [OF c "1.prems"(1) this] show ?thesis .
  qed
  with c show ?case by auto
qed

lemma validate_apps_lem:
  "validate_apps acc apps = Inr r \<Longrightarrow> list_all (\<lambda>a. xpath_desc ''lem'' a \<noteq> []) apps"
  by (induction apps arbitrary: acc) (auto split: list.splits)

lemma validate_True:
  assumes "validate root = Inr (True, out)" and "a \<in> set (xpath_all ''app'' root)"
  shows "xpath_desc ''lem'' a \<noteq> [] \<and>
         (\<forall>r\<in>set (xpath_desc ''rdg'' a). count_segs r = count_segs (hd (xpath_desc ''lem'' a)))"
proof -
  from assms(1) have all: "list_all (\<lambda>a. xpath_desc ''lem'' a \<noteq> []) (xpath_all ''app'' root)"
    unfolding validate_def by (rule validate_apps_lem)
  from validate_apps_eq [OF all, of "(True, [])"] assms(1)
  have "list_all (\<lambda>a. list_all (\<lambda>r. count_segs r = count_segs (hd (xpath_desc ''lem'' a)))
                          (xpath_desc ''rdg'' a)) (xpath_all ''app'' root)"
    by (simp add: validate_def)
  with all assms(2) show ?thesis
    by (simp add: list_all_iff)
qed

lemma find_Some_in: "find P xs = Some x \<Longrightarrow> x \<in> set xs \<and> P x"
  by (induction xs) (auto split: if_splits)

text \<open>
  For the children of the body: when every apparatus among them has a lemma and a
  reading for the witness with as many markers among its children as the lemma has,
  both projections exist and hold the same number of markers.
\<close>

lemma projections_markers:
  assumes "\<forall>c\<in>set cs. raw_tag (tag c) = str ''app'' \<longrightarrow>
             xpath_desc ''lem'' c \<noteq> [] \<and>
             (\<forall>r\<in>set (xpath_desc ''rdg'' c). el_get r (str ''wit'') \<noteq> None) \<and>
             (\<exists>r\<in>set (xpath_desc ''rdg'' c). str ''#'' @ w \<in> set (wit_refs r)) \<and>
             (\<forall>r\<in>set (xpath_desc ''rdg'' c).
                length (filter is_seg_marker (children r))
                  = length (filter is_seg_marker (children (hd (xpath_desc ''lem'' c)))))"
  shows "\<exists>ls ws. lemma_children cs = Inr ls \<and> witness_children (Some w) cs = Inr ws \<and>
           length (filter is_seg_marker ws) = length (filter is_seg_marker ls)"
  using assms
proof (induction cs)
  case Nil
  show ?case by simp
next
  case (Cons c cs)
  from Cons.prems have "\<forall>c\<in>set cs. raw_tag (tag c) = str ''app'' \<longrightarrow>
             xpath_desc ''lem'' c \<noteq> [] \<and>
             (\<forall>r\<in>set (xpath_desc ''rdg'' c). el_get r (str ''wit'') \<noteq> None) \<and>
             (\<exists>r\<in>set (xpath_desc ''rdg'' c). str ''#'' @ w \<in> set (wit_refs r)) \<and>
             (\<forall>r\<in>set (xpath_desc ''rdg'' c).
                length (filter is_seg_marker (children r))
                  = length (filter is_seg_marker (children (hd (xpath_desc ''lem'' c)))))"
    by simp
  from Cons.IH [OF this] obtain ls ws where
    ls: "lemma_children cs = Inr ls" and ws: "witness_children (Some w) cs = Inr ws"
    and eq: "length (filter is_seg_marker ws) = length (filter is_seg_marker ls)"
    by blast
  show ?case
  proof (cases "raw_tag (tag c) = str ''app''")
    case False
    then show ?thesis by (simp add: ls ws eq)
  next
    case True
    with Cons.prems have lem: "xpath_desc ''lem'' c \<noteq> []"
      and attr: "\<forall>r\<in>set (xpath_desc ''rdg'' c). el_get r (str ''wit'') \<noteq> None"
      and cov: "\<exists>r\<in>set (xpath_desc ''rdg'' c). str ''#'' @ w \<in> set (wit_refs r)"
      and cnt: "\<forall>r\<in>set (xpath_desc ''rdg'' c).
                length (filter is_seg_marker (children r))
                  = length (filter is_seg_marker (children (hd (xpath_desc ''lem'' c))))"
      by simp_all
    from lem obtain l lrest where l: "xpath_desc ''lem'' c = l # lrest"
      by (cases "xpath_desc ''lem'' c") auto
    have "list_all (\<lambda>r. el_get r (str ''wit'') \<noteq> None) (xpath_desc ''rdg'' c)"
      using attr by (simp add: list_all_iff)
    then have f: "find_wit_rdg (Some w) (xpath_desc ''rdg'' c)
        = Inr (find (\<lambda>r. str ''#'' @ w \<in> set (wit_refs r)) (xpath_desc ''rdg'' c))"
      by (rule find_wit_rdg_eq)
    from cov obtain r where r: "find (\<lambda>r. str ''#'' @ w \<in> set (wit_refs r)) (xpath_desc ''rdg'' c) = Some r"
      by (cases "find (\<lambda>r. str ''#'' @ w \<in> set (wit_refs r)) (xpath_desc ''rdg'' c)")
         (auto simp: find_None_iff)
    then have "r \<in> set (xpath_desc ''rdg'' c)" by (auto dest: find_Some_in)
    with cnt l have "length (filter is_seg_marker (children r))
        = length (filter is_seg_marker (children l))" by simp
    then show ?thesis
      using True by (simp add: ls ws eq l wit_rdg_of_def f r)
  qed
qed

lemma length_segs_of_projection:
  "length (segs_of (projection_tree a cs)) = Suc (length (filter is_seg_marker cs))"
  by (simp add: segs_of_def length_ce_segment_loop)

lemma lemma_children_ok:
  assumes "\<forall>c\<in>set cs. raw_tag (tag c) = str ''app'' \<longrightarrow> xpath_desc ''lem'' c \<noteq> []"
  shows "\<exists>ls. lemma_children cs = Inr ls"
  using assms
proof (induction cs)
  case Nil
  show ?case by simp
next
  case (Cons c cs)
  then obtain ls where ls: "lemma_children cs = Inr ls" by auto
  show ?case
  proof (cases "raw_tag (tag c) = str ''app''")
    case True
    with Cons.prems obtain l lrest where "xpath_desc ''lem'' c = l # lrest"
      by (cases "xpath_desc ''lem'' c") auto
    with True ls show ?thesis by simp
  next
    case False
    with ls show ?thesis by simp
  qed
qed

lemma witness_trees_all:
  assumes "\<forall>w\<in>set wits. \<exists>t. get_witness_xml root (Some w) = Inr t \<and> P t"
  shows "\<exists>trees. witness_trees root (map Some wits) = Inr trees \<and> (\<forall>t\<in>set trees. P t)"
  using assms
proof (induction wits)
  case Nil
  show ?case by simp
next
  case (Cons w wits)
  then obtain trees where tr: "witness_trees root (map Some wits) = Inr trees"
    and all: "\<forall>t\<in>set trees. P t" by auto
  from Cons.prems obtain t where t: "get_witness_xml root (Some w) = Inr t" and pt: "P t"
    by auto
  show ?case using tr all t pt by simp
qed

text \<open>
  The documents on which the check of \<open>validate\<close> is enough for \<open>update_boundaries\<close>.
  Let \<open>validate\<close> return \<open>True\<close> on a document without \<open>seg\<close> elements
  of its own, in which every apparatus among the children of the body is a TEI \<open>app\<close>
  whose readings all have a \<open>wit\<close> attribute, where each witness of the list is named by
  some reading, and where the seg markers below a \<open>lem\<close> or \<open>rdg\<close> are exactly its
  children at which \<open>segment\<close> splits. Then the lemma projection and every witness
  projection exist, every witness projection has exactly as many segments as the lemma
  projection, and \<open>update_boundaries\<close> does not fail with an \<open>IndexError\<close>.
\<close>

theorem validated_projections_align:
  assumes v: "validate root = Inr (True, out)"
    and gw: "get_witnesses root = Inr (map Some wits)"
    and tx: "xpath_all ''text'' root = text # ts"
    and bd: "xpath_desc ''body'' text = body # bs"
    and ns: "xpath_all ''seg'' root = []"
    and wf: "\<forall>c\<in>set (children body). raw_tag (tag c) = str ''app'' \<longrightarrow>
               tag c = tei ''app'' \<and>
               (\<forall>x\<in>set (xpath_desc ''lem'' c @ xpath_desc ''rdg'' c).
                   seg_markers_below x = filter is_seg_marker (children x)) \<and>
               (\<forall>r\<in>set (xpath_desc ''rdg'' c). el_get r (str ''wit'') \<noteq> None) \<and>
               (\<forall>w\<in>set wits. \<exists>r\<in>set (xpath_desc ''rdg'' c). str ''#'' @ w \<in> set (wit_refs r))"
  shows "\<exists>lemma_xml trees.
           get_lemma_xml root = Inr lemma_xml \<and>
           witness_trees root (map Some wits) = Inr trees \<and>
           (\<forall>t\<in>set trees. length (segs_of t) = length (segs_of lemma_xml)) \<and>
           update_boundaries ser root \<noteq> Inl IndexError"
proof -
  have text_in: "text \<in> set (root # descendants root)"
    using tx by (metis filter_is_subset list.set_intros(1) subsetD xpath_all_def)
  have body_in: "body \<in> set (descendants text)"
    using bd by (metis filter_is_subset list.set_intros(1) subsetD xpath_desc_def)
  have child_in: "c \<in> set (descendants root)" if "c \<in> set (children body)" for c
  proof -
    from that have "c \<in> set (descendants body)" by (rule children_descendants)
    then have "c \<in> set (descendants text)" using body_in by (rule descendants_trans)
    with text_in show ?thesis by (auto intro: descendants_trans)
  qed
  have app_ok: "xpath_desc ''lem'' c \<noteq> [] \<and>
         (\<forall>r\<in>set (xpath_desc ''rdg'' c).
            length (filter is_seg_marker (children r))
              = length (filter is_seg_marker (children (hd (xpath_desc ''lem'' c)))))"
    if c: "c \<in> set (children body)" and app: "raw_tag (tag c) = str ''app''" for c
  proof -
    from wf c app have tg: "tag c = tei ''app''"
      and flat: "\<forall>x\<in>set (xpath_desc ''lem'' c @ xpath_desc ''rdg'' c).
                   seg_markers_below x = filter is_seg_marker (children x)"
      by auto
    from child_in [OF c] tg have "c \<in> set (xpath_all ''app'' root)"
      by (simp add: xpath_all_def)
    from validate_True [OF v this] have lem: "xpath_desc ''lem'' c \<noteq> []"
      and cnt: "\<forall>r\<in>set (xpath_desc ''rdg'' c). count_segs r = count_segs (hd (xpath_desc ''lem'' c))"
      by auto
    from lem have hd_in: "hd (xpath_desc ''lem'' c) \<in> set (xpath_desc ''lem'' c)" by simp
    have "length (filter is_seg_marker (children r))
              = length (filter is_seg_marker (children (hd (xpath_desc ''lem'' c))))"
      if r: "r \<in> set (xpath_desc ''rdg'' c)" for r
    proof -
      from flat r have "seg_markers_below r = filter is_seg_marker (children r)" by simp
      moreover from flat hd_in have "seg_markers_below (hd (xpath_desc ''lem'' c))
          = filter is_seg_marker (children (hd (xpath_desc ''lem'' c)))" by simp
      moreover from cnt r have "count_segs r = count_segs (hd (xpath_desc ''lem'' c))" by simp
      ultimately show ?thesis by (simp add: count_segs_markers)
    qed
    with lem show ?thesis by simp
  qed
  have "\<forall>c\<in>set (children body). raw_tag (tag c) = str ''app'' \<longrightarrow> xpath_desc ''lem'' c \<noteq> []"
    using app_ok by simp
  from lemma_children_ok [OF this] obtain ls where ls: "lemma_children (children body) = Inr ls"
    by blast
  have lx: "get_lemma_xml root = Inr (projection_tree (attrib text) ls)"
    by (simp add: get_lemma_xml_def tx bd ls)
  have each: "\<exists>t. get_witness_xml root (Some w) = Inr t \<and>
                  length (segs_of t) = length (segs_of (projection_tree (attrib text) ls))"
    if w: "w \<in> set wits" for w
  proof -
    have "\<forall>c\<in>set (children body). raw_tag (tag c) = str ''app'' \<longrightarrow>
             xpath_desc ''lem'' c \<noteq> [] \<and>
             (\<forall>r\<in>set (xpath_desc ''rdg'' c). el_get r (str ''wit'') \<noteq> None) \<and>
             (\<exists>r\<in>set (xpath_desc ''rdg'' c). str ''#'' @ w \<in> set (wit_refs r)) \<and>
             (\<forall>r\<in>set (xpath_desc ''rdg'' c).
                length (filter is_seg_marker (children r))
                  = length (filter is_seg_marker (children (hd (xpath_desc ''lem'' c)))))"
      using app_ok wf w by simp
    from projections_markers [OF this] ls obtain ws where
      ws: "witness_children (Some w) (children body) = Inr ws"
      and eq: "length (filter is_seg_marker ws) = length (filter is_seg_marker ls)"
      by auto
    have "get_witness_xml root (Some w) = Inr (projection_tree (attrib text) ws)"
      by (simp add: get_witness_xml_def tx bd ws)
    with eq show ?thesis by (simp add: length_segs_of_projection)
  qed
  from witness_trees_all [of wits root "\<lambda>t. length (segs_of t)
      = length (segs_of (projection_tree (attrib text) ls))"] each
  obtain trees where tr: "witness_trees root (map Some wits) = Inr trees"
    and len: "\<forall>t\<in>set trees. length (segs_of t) = length (segs_of (projection_tree (attrib text) ls))"
    by blast
  have "length wits = length trees"
    using witness_trees_length [OF tr] by simp
  moreover have "\<forall>t\<in>set trees. 0 + length (segs_of (projection_tree (attrib text) ls)) \<le> length (segs_of t)"
    using len by simp
  ultimately have "\<exists>res. update_loop ser (zip (map Some wits) (map segs_of trees)) 0
      (segs_of (projection_tree (attrib text) ls)) = Inr res"
    using update_loop_eq [of trees 0 "segs_of (projection_tree (attrib text) ls)" wits ser] by blast
  then have "update_boundaries ser root \<noteq> Inl IndexError"
    by (auto simp: update_boundaries_def gw lx tr tx split: if_splits)
  with lx tr len show ?thesis by blast
qed

text \<open>
  C9. \<open>validate\<close> returns \<open>True\<close> on the document in which no reading names witness
  \<open>B\<close>; the projection of \<open>B\<close> has one segment where the lemma has two, and
  \<open>update_boundaries\<close>, whose loop takes the segment of every witness at every index of
  the lemma (its comment: all segmented files have the same number of segments), fails
  with an \<open>IndexError\<close> at the second segment.
\<close>

theorem validate_true_index_error:
  "validate uncovered_doc = Inr (True, []) \<and>
   update_boundaries to_string uncovered_doc = Inl IndexError"
proof -
  have v: "validate uncovered_doc = Inr (True, [])"
    by (simp add: uncovered_doc_def validate_def xml_eval count_segs_def)
  have w: "get_witnesses uncovered_doc = Inr [Some (str ''A''), Some (str ''B'')]"
    by (simp add: uncovered_doc_def get_witnesses_def xml_eval)
  have l: "get_lemma_xml uncovered_doc = Inr (projection_tree [] [word ''b'', seg_marker, word ''c''])"
    by (simp add: uncovered_doc_def get_lemma_xml_def xml_eval)
  have t: "witness_trees uncovered_doc [Some (str ''A''), Some (str ''B'')] =
      Inr [projection_tree [] [word ''b'', seg_marker, word ''c''], projection_tree [] []]"
    by (simp add: uncovered_doc_def get_witness_xml_def wit_rdg_of_def xml_eval py_split_refs
        str_append Element_def)
  have s1: "segs_of (projection_tree [] [word ''b'', seg_marker, word ''c''])
      = [el ''seg'' [word ''b''], el ''seg'' [word ''c'']]"
    by (simp add: segs_of_def is_seg_marker_def xml_eval tree_body_def)
  have s2: "segs_of (projection_tree [] []) = [el ''seg'' []]"
    by (simp add: segs_of_def el_def)
  have a0: "segs_at 0 [(Some (str ''A''), [el ''seg'' [word ''b''], el ''seg'' [word ''c'']]),
                       (Some (str ''B''), [el ''seg'' []])]
      = Inr (with_ids [(str ''A'', el ''seg'' [word ''b'']), (str ''B'', el ''seg'' [])])"
    by (simp add: with_ids_def)
  have a1: "segs_at (Suc 0) [(Some (str ''A''), [el ''seg'' [word ''b''], el ''seg'' [word ''c'']]),
                             (Some (str ''B''), [el ''seg'' []])]
      = Inl IndexError"
    by simp
  have "update_boundaries to_string uncovered_doc = Inl IndexError"
    by (simp add: update_boundaries_def w l t s1 s2 a0 a1 update_segment_eq
        del: witness_trees.simps segs_at.simps)
  with v show ?thesis by simp
qed

theorem validated_projections_align_witness:
  "\<exists>lemma_xml trees.
     get_lemma_xml covered_doc = Inr lemma_xml \<and>
     witness_trees covered_doc (map Some [str ''A'', str ''B'', str ''C'']) = Inr trees \<and>
     (\<forall>t\<in>set trees. length (segs_of t) = length (segs_of lemma_xml)) \<and>
     update_boundaries to_string covered_doc \<noteq> Inl IndexError"
proof -
  let ?app = "el ''app'' [el ''lem'' [word ''b'', seg_marker, word ''c''],
                       rdg_el ''#A #B'' [word ''b'', seg_marker, word ''c''],
                       rdg_el ''#C'' [seg_marker, word ''x'']]"
  let ?body = "el ''body'' [word ''a'', ?app, word ''d'']"
  let ?text = "el ''text'' [?body]"
  have v: "validate covered_doc = Inr (True, [])"
    by (simp add: covered_doc_def validate_def xml_eval count_segs_def)
  have gw: "get_witnesses covered_doc = Inr (map Some [str ''A'', str ''B'', str ''C''])"
    by (simp add: covered_doc_def get_witnesses_def xml_eval)
  have tx: "xpath_all ''text'' covered_doc = ?text # []"
    by (simp add: covered_doc_def xml_eval)
  have bd: "xpath_desc ''body'' ?text = ?body # []"
    by (simp add: xml_eval)
  have ns: "xpath_all ''seg'' covered_doc = []"
    by (simp add: covered_doc_def xml_eval)
  have wf: "\<forall>c\<in>set (children ?body). raw_tag (tag c) = str ''app'' \<longrightarrow>
               tag c = tei ''app'' \<and>
               (\<forall>x\<in>set (xpath_desc ''lem'' c @ xpath_desc ''rdg'' c).
                   seg_markers_below x = filter is_seg_marker (children x)) \<and>
               (\<forall>r\<in>set (xpath_desc ''rdg'' c). el_get r (str ''wit'') \<noteq> None) \<and>
               (\<forall>w\<in>set [str ''A'', str ''B'', str ''C''].
                   \<exists>r\<in>set (xpath_desc ''rdg'' c). str ''#'' @ w \<in> set (wit_refs r))"
    by (simp add: xml_eval seg_markers_below_def is_seg_marker_def wit_refs_def py_split_refs
        str_append del: set_filter)
  show ?thesis
    by (rule validated_projections_align [OF v gw tx bd ns wf])
qed

section \<open>tei_normalizer: text functions\<close>

section \<open>tei_labeler: types\<close>

lemma classify_rules:
  fixes nfkd nfc p vs
  defines "ty \<equiv> classify nfkd nfc (rdg_serialization p) (map rdg_serialization vs)"
  defines "voc \<equiv> (\<forall>v\<in>set vs. norm_ser nfkd nfc v = norm_ser nfkd nfc p)"
  defines "ort \<equiv> (\<forall>v\<in>set vs. plene_ser nfkd nfc v = plene_ser nfkd nfc p)"
  shows "(voc \<longrightarrow> ty = str ''vocalic'') \<and>
         (\<not> voc \<and> ort \<longrightarrow> ty = str ''orthographic'') \<and>
         (\<not> voc \<and> \<not> ort \<and> (\<forall>v\<in>set vs. mset (norm_tokens nfkd nfc v) = mset (norm_tokens nfkd nfc p))
            \<longrightarrow> ty = str ''transposition'') \<and>
         (\<not> voc \<and> \<not> ort \<and> (\<exists>v\<in>set vs. set (norm_tokens nfkd nfc v) \<noteq> set (norm_tokens nfkd nfc p))
            \<longrightarrow> ty = (if raw_tokens p = [] \<and> (\<forall>v\<in>set vs. raw_tokens v \<noteq> []) then str ''addition''
                      else if raw_tokens p \<noteq> [] \<and> (\<forall>v\<in>set vs. raw_tokens v = []) then str ''omission''
                      else str ''substitution''))"
proof -
  have v: "list_all (\<lambda>v. format_text nfkd nfc all_accents v
             = format_text nfkd nfc all_accents (rdg_serialization p)) (map rdg_serialization vs) = voc"
    by (simp add: voc_def list_all_iff norm_ser_def)
  have ot: "list_all (\<lambda>v. format_text nfkd nfc all_accents (strip_plene nfkd nfc v)
             = format_text nfkd nfc all_accents (strip_plene nfkd nfc (rdg_serialization p)))
             (map rdg_serialization vs) = ort"
    by (simp add: ort_def list_all_iff plene_ser_def)
  have t: "list_all (\<lambda>v. set (py_split (format_text nfkd nfc all_accents v))
             = set (py_split (format_text nfkd nfc all_accents (rdg_serialization p))))
             (map rdg_serialization vs)
           = (\<forall>v\<in>set vs. set (norm_tokens nfkd nfc v) = set (norm_tokens nfkd nfc p))"
    by (simp add: list_all_iff norm_tokens_def norm_ser_def)
  have a: "list_all (\<lambda>v. length (py_split v) \<noteq> 0) (map rdg_serialization vs)
           = (\<forall>v\<in>set vs. raw_tokens v \<noteq> [])"
    by (simp add: list_all_iff raw_tokens_def)
  have om: "list_all (\<lambda>v. \<not> length (py_split v) > 0) (map rdg_serialization vs)
           = (\<forall>v\<in>set vs. raw_tokens v = [])"
    by (simp add: list_all_iff raw_tokens_def)
  have ms: "(\<forall>v\<in>set vs. mset (norm_tokens nfkd nfc v) = mset (norm_tokens nfkd nfc p))
        \<Longrightarrow> (\<forall>v\<in>set vs. set (norm_tokens nfkd nfc v) = set (norm_tokens nfkd nfc p))"
    by (auto dest: mset_eq_setD)
  have ty: "ty = (if voc then str ''vocalic''
      else if ort then str ''orthographic''
      else if (\<forall>v\<in>set vs. set (norm_tokens nfkd nfc v) = set (norm_tokens nfkd nfc p))
      then str ''transposition''
      else if raw_tokens p = []
      then (if (\<forall>v\<in>set vs. raw_tokens v \<noteq> []) then str ''addition'' else str ''substitution'')
      else (if (\<forall>v\<in>set vs. raw_tokens v = []) then str ''omission'' else str ''substitution''))"
    unfolding ty_def classify_def Let_def v ot t a om by (simp add: raw_tokens_def)
  show ?thesis
    using ms by (auto simp: ty)
qed

lemma map_of_dict_set: "map_of (dict_set k v d) k' = (if k' = k then Some v else map_of d k')"
  by (induction d) auto

lemma descendants_children: "descendants e = concat (map (\<lambda>c. c # descendants c) (children e))"
  by (cases e) simp

lemma add_types_tag:
  "add_types nfkd nfc e = Inr e' \<Longrightarrow> tag e' = tag e"
  by (cases e) (auto split: if_splits sum.splits)

lemma add_types_apps:
  "add_types nfkd nfc e = Inr e' \<Longrightarrow>
     list_all2 (\<lambda>app app'. \<exists>ty. app_type nfkd nfc app = Inr ty \<and> type_of app' = Some ty)
       (filter (\<lambda>d. tag d = tei ''app'') (e # descendants e))
       (filter (\<lambda>d. tag d = tei ''app'') (e' # descendants e'))"
  "add_types_list nfkd nfc cs = Inr cs' \<Longrightarrow>
     list_all2 (\<lambda>app app'. \<exists>ty. app_type nfkd nfc app = Inr ty \<and> type_of app' = Some ty)
       (filter (\<lambda>d. tag d = tei ''app'') (concat (map (\<lambda>c. c # descendants c) cs)))
       (filter (\<lambda>d. tag d = tei ''app'') (concat (map (\<lambda>c. c # descendants c) cs')))"
proof (induction nfkd nfc e and nfkd nfc cs arbitrary: e' and cs' rule: add_types_add_types_list.induct)
  case (1 nfkd nfc t a x cs y)
  show ?case
  proof (cases "t = tei ''app''")
    case True
    with "1.prems" obtain ty cs1 where ty: "app_type nfkd nfc (Elem t a x cs y) = Inr ty"
      and cs1: "add_types_list nfkd nfc cs = Inr cs1"
      and e': "e' = Elem t (dict_set (str ''type'') ty a) x cs1 y"
      by (auto split: sum.splits)
    have "type_of e' = Some ty"
      by (simp add: e' type_of_def el_get_def map_of_dict_set)
    with "1.IH"(1) [OF True ty cs1] True ty show ?thesis
      by (simp add: e')
  next
    case False
    with "1.prems" obtain cs1 where cs1: "add_types_list nfkd nfc cs = Inr cs1"
      and e': "e' = Elem t a x cs1 y"
      by (auto split: sum.splits)
    with "1.IH"(2) [OF False cs1] False show ?thesis
      by simp
  qed
next
  case (2 nfkd nfc)
  then show ?case by simp
next
  case (3 nfkd nfc c cs)
  from "3.prems" obtain c1 cs1 where c1: "add_types nfkd nfc c = Inr c1"
    and cs1: "add_types_list nfkd nfc cs = Inr cs1" and cs': "cs' = c1 # cs1"
    by (auto split: sum.splits)
  have l: "concat (map (\<lambda>c. c # descendants c) (d # ds))
      = (d # descendants d) @ concat (map (\<lambda>c. c # descendants c) ds)" for d ds
    by simp
  show ?case
    unfolding cs' l filter_append
    by (rule list_all2_appendI [OF "3.IH"(1) [OF c1] "3.IH"(2) [OF c1 cs1]])
qed

text \<open>
  C4, amended. When \<open>add_types\<close> returns, every \<open>app\<close> of the document has a first
  \<open>rdg\<close>, the primary reading \<open>p\<close>, and has received a type \<open>ty\<close> by the first rule
  that matches, each rule comparing the other \<open>rdg\<close> readings \<open>vs\<close> with \<open>p\<close> (the
  \<open>lem\<close> is not read): \<open>vocalic\<close> when all fully normalized serialisations agree; else
  \<open>orthographic\<close> when all plene-reduced, fully normalized serialisations agree; else
  \<open>transposition\<close> when the normalized tokens of every reading are those of \<open>p\<close> up to
  order; else, when the normalized tokens of some reading are not even the same set as
  those of \<open>p\<close>, \<open>addition\<close> when \<open>p\<close> has no token and every other reading has one,
  \<open>omission\<close> when \<open>p\<close> has a token and no other reading has one, and
  \<open>substitution\<close> otherwise.
\<close>

theorem add_types_first_matching_rule:
  assumes "add_types nfkd nfc root = Inr root'"
  shows "list_all2
     (\<lambda>app app'. \<exists>p vs ty.
        xpath_desc ''rdg'' app = p # vs \<and> type_of app' = Some ty \<and>
        ((\<forall>v\<in>set vs. norm_ser nfkd nfc v = norm_ser nfkd nfc p) \<longrightarrow> ty = str ''vocalic'') \<and>
        (\<not> (\<forall>v\<in>set vs. norm_ser nfkd nfc v = norm_ser nfkd nfc p) \<and>
         (\<forall>v\<in>set vs. plene_ser nfkd nfc v = plene_ser nfkd nfc p) \<longrightarrow> ty = str ''orthographic'') \<and>
        (\<not> (\<forall>v\<in>set vs. norm_ser nfkd nfc v = norm_ser nfkd nfc p) \<and>
         \<not> (\<forall>v\<in>set vs. plene_ser nfkd nfc v = plene_ser nfkd nfc p) \<and>
         (\<forall>v\<in>set vs. mset (norm_tokens nfkd nfc v) = mset (norm_tokens nfkd nfc p))
           \<longrightarrow> ty = str ''transposition'') \<and>
        (\<not> (\<forall>v\<in>set vs. norm_ser nfkd nfc v = norm_ser nfkd nfc p) \<and>
         \<not> (\<forall>v\<in>set vs. plene_ser nfkd nfc v = plene_ser nfkd nfc p) \<and>
         (\<exists>v\<in>set vs. set (norm_tokens nfkd nfc v) \<noteq> set (norm_tokens nfkd nfc p))
           \<longrightarrow> ty = (if raw_tokens p = [] \<and> (\<forall>v\<in>set vs. raw_tokens v \<noteq> []) then str ''addition''
                     else if raw_tokens p \<noteq> [] \<and> (\<forall>v\<in>set vs. raw_tokens v = [])
                     then str ''omission'' else str ''substitution'')))
     (xpath_all ''app'' root) (xpath_all ''app'' root')"
proof -
  have "list_all2 (\<lambda>app app'. \<exists>ty. app_type nfkd nfc app = Inr ty \<and> type_of app' = Some ty)
       (xpath_all ''app'' root) (xpath_all ''app'' root')"
    unfolding xpath_all_def by (rule add_types_apps(1) [OF assms])
  then show ?thesis
  proof (rule list_all2_mono)
    fix app app'
    assume "\<exists>ty. app_type nfkd nfc app = Inr ty \<and> type_of app' = Some ty"
    then obtain ty where at: "app_type nfkd nfc app = Inr ty" and ty: "type_of app' = Some ty"
      by blast
    from at obtain p vs where r: "xpath_desc ''rdg'' app = p # vs"
      and c: "ty = classify nfkd nfc (rdg_serialization p) (map rdg_serialization vs)"
      by (auto simp: app_type_def split: list.splits)
    from classify_rules [where nfkd = nfkd and nfc = nfc and vs = vs and p = p] r ty
    show "\<exists>p vs ty.
        xpath_desc ''rdg'' app = p # vs \<and> type_of app' = Some ty \<and>
        ((\<forall>v\<in>set vs. norm_ser nfkd nfc v = norm_ser nfkd nfc p) \<longrightarrow> ty = str ''vocalic'') \<and>
        (\<not> (\<forall>v\<in>set vs. norm_ser nfkd nfc v = norm_ser nfkd nfc p) \<and>
         (\<forall>v\<in>set vs. plene_ser nfkd nfc v = plene_ser nfkd nfc p) \<longrightarrow> ty = str ''orthographic'') \<and>
        (\<not> (\<forall>v\<in>set vs. norm_ser nfkd nfc v = norm_ser nfkd nfc p) \<and>
         \<not> (\<forall>v\<in>set vs. plene_ser nfkd nfc v = plene_ser nfkd nfc p) \<and>
         (\<forall>v\<in>set vs. mset (norm_tokens nfkd nfc v) = mset (norm_tokens nfkd nfc p))
           \<longrightarrow> ty = str ''transposition'') \<and>
        (\<not> (\<forall>v\<in>set vs. norm_ser nfkd nfc v = norm_ser nfkd nfc p) \<and>
         \<not> (\<forall>v\<in>set vs. plene_ser nfkd nfc v = plene_ser nfkd nfc p) \<and>
         (\<exists>v\<in>set vs. set (norm_tokens nfkd nfc v) \<noteq> set (norm_tokens nfkd nfc p))
           \<longrightarrow> ty = (if raw_tokens p = [] \<and> (\<forall>v\<in>set vs. raw_tokens v \<noteq> []) then str ''addition''
                     else if raw_tokens p \<noteq> [] \<and> (\<forall>v\<in>set vs. raw_tokens v = [])
                     then str ''omission'' else str ''substitution''))"
      unfolding c by blast
  qed
qed

lemmas text_eval = format_text_def all_accents_def is_cantillation_def is_pointing_def
  is_extraordinaire_def is_letter_def py_split_def py_isspace_def

lemma latin_serializations:
  "rdg_serialization (rdg_el w [word ''A'', word ''B'']) = str ''A B''"
  "rdg_serialization (rdg_el w [word ''B'', word ''A'']) = str ''B A''"
  "rdg_serialization (rdg_el w [word ''A'']) = str ''A''"
  by (simp_all add: rdg_serialization_def rdg_el_def word_def str_def)

lemma latin_format_text:
  "format_text (\<lambda>s. s) (\<lambda>s. s) all_accents (str ''A B'') = str ''A B''"
  "format_text (\<lambda>s. s) (\<lambda>s. s) all_accents (str ''B A'') = str ''B A''"
  "format_text (\<lambda>s. s) (\<lambda>s. s) all_accents (str '' '') = str '' ''"
  by (simp_all add: text_eval str_def)

lemma latin_strip_plene:
  "strip_plene (\<lambda>s. s) (\<lambda>s. s) (str ''A B'') = str '' ''"
  "strip_plene (\<lambda>s. s) (\<lambda>s. s) (str ''B A'') = str '' ''"
  by (simp_all add: strip_plene_def plene_step_def Let_def str_def is_letter_def is_pointing_def)

lemma latin_swap_classify:
  "classify (\<lambda>s. s) (\<lambda>s. s) (str ''A B'') [str ''B A''] = str ''orthographic''"
  by (simp add: classify_def Let_def latin_format_text latin_strip_plene)

lemma same_classify:
  "classify nfkd nfc s [s] = str ''vocalic''"
  by (simp add: classify_def Let_def)

lemma app_rdgs:
  "xpath_desc ''rdg'' (el ''app'' [el ''lem'' ls, rdg_el a as, rdg_el b bs]) =
     [rdg_el a as, rdg_el b bs] @ filter (\<lambda>d. tag d = tei ''rdg'')
        (concat (map (\<lambda>c. c # descendants c) bs))"
  if "filter (\<lambda>d. tag d = tei ''rdg'') (concat (map (\<lambda>c. c # descendants c) ls)) = []"
     "filter (\<lambda>d. tag d = tei ''rdg'') (concat (map (\<lambda>c. c # descendants c) as)) = []"
  using that by (simp add: xpath_desc_def el_def rdg_el_def)

text \<open>
  C4, as stated. The Latin readings \<open>A B\<close> and \<open>B A\<close> are classified \<open>orthographic\<close>,
  not \<open>transposition\<close>: \<open>strip_plene\<close> keeps only spaces, Hebrew letters and points,
  so both reduce to one space. And an apparatus whose two \<open>rdg\<close> readings agree is
  classified \<open>vocalic\<close> whatever its \<open>lem\<close> holds. (Both normal forms leave a string of
  ASCII characters as it is, so the identity stands for them here.)
\<close>

theorem add_types_latin_swap_orthographic:
  "app_types (\<lambda>s. s) (\<lambda>s. s)
     (el ''app'' [el ''lem'' [word ''A'', word ''B''], rdg_el ''#X'' [word ''A'', word ''B''],
                  rdg_el ''#Y'' [word ''B'', word ''A'']])
     = Inr [Some (str ''orthographic'')]
   \<and> app_types (\<lambda>s. s) (\<lambda>s. s)
     (el ''app'' [el ''lem'' [word ''X''], rdg_el ''#X'' [word ''A''], rdg_el ''#Y'' [word ''A'']])
     = Inr [Some (str ''vocalic'')]"
proof -
  have t1: "app_type (\<lambda>s. s) (\<lambda>s. s)
     (el ''app'' [el ''lem'' [word ''A'', word ''B''], rdg_el ''#X'' [word ''A'', word ''B''],
                  rdg_el ''#Y'' [word ''B'', word ''A'']]) = Inr (str ''orthographic'')"
    by (simp add: app_type_def app_rdgs word_def latin_swap_classify
        latin_serializations [unfolded word_def])
  have t2: "app_type (\<lambda>s. s) (\<lambda>s. s)
     (el ''app'' [el ''lem'' [word ''X''], rdg_el ''#X'' [word ''A''], rdg_el ''#Y'' [word ''A'']])
     = Inr (str ''vocalic'')"
    by (simp add: app_type_def app_rdgs word_def same_classify
        latin_serializations [unfolded word_def])
  have c: "add_types_list nfkd nfc [el ''lem'' ls, rdg_el a [word x, word y], rdg_el b [word z, word u]]
      = Inr [el ''lem'' ls, rdg_el a [word x, word y], rdg_el b [word z, word u]]"
    if "add_types_list nfkd nfc ls = Inr ls" for nfkd nfc ls a b x y z u
    using that by (simp add: el_def rdg_el_def word_def)
  have c1: "add_types_list nfkd nfc [el ''lem'' ls, rdg_el a [word x], rdg_el b [word z]]
      = Inr [el ''lem'' ls, rdg_el a [word x], rdg_el b [word z]]"
    if "add_types_list nfkd nfc ls = Inr ls" for nfkd nfc ls a b x z
    using that by (simp add: el_def rdg_el_def word_def)
  have w2: "add_types_list nfkd nfc [word x, word y] = Inr [word x, word y]" for nfkd nfc x y
    by (simp add: word_def)
  have w1: "add_types_list nfkd nfc [word x] = Inr [word x]" for nfkd nfc x
    by (simp add: word_def)
  have a1: "add_types (\<lambda>s. s) (\<lambda>s. s)
     (el ''app'' [el ''lem'' [word ''A'', word ''B''], rdg_el ''#X'' [word ''A'', word ''B''],
                  rdg_el ''#Y'' [word ''B'', word ''A'']])
     = Inr (Elem (tei ''app'') [(str ''type'', str ''orthographic'')] None
             [el ''lem'' [word ''A'', word ''B''], rdg_el ''#X'' [word ''A'', word ''B''],
                  rdg_el ''#Y'' [word ''B'', word ''A'']] None)"
    using t1 c [OF w2] by (simp add: el_def)
  have a2: "add_types (\<lambda>s. s) (\<lambda>s. s)
     (el ''app'' [el ''lem'' [word ''X''], rdg_el ''#X'' [word ''A''], rdg_el ''#Y'' [word ''A'']])
     = Inr (Elem (tei ''app'') [(str ''type'', str ''vocalic'')] None
             [el ''lem'' [word ''X''], rdg_el ''#X'' [word ''A''], rdg_el ''#Y'' [word ''A'']] None)"
    using t2 c1 [OF w1] by (simp add: el_def)
  show ?thesis
    unfolding app_types_def a1 a2 by (simp add: type_of_def xml_eval)
qed

text \<open>
  Two unpointed Hebrew words in swapped order, alef-bet gimel-dalet against
  gimel-dalet alef-bet: the type is \<open>transposition\<close>. (Both normal forms leave a string
  of unpointed Hebrew letters and spaces as it is.)
\<close>

theorem add_types_first_matching_rule_witness:
  "app_types (\<lambda>s. s) (\<lambda>s. s)
     (el ''app'' [el ''lem'' [word_of [1488, 1489], word_of [1490, 1491]],
                  rdg_el ''#X'' [word_of [1488, 1489], word_of [1490, 1491]],
                  rdg_el ''#Y'' [word_of [1490, 1491], word_of [1488, 1489]]])
     = Inr [Some (str ''transposition'')]"
proof -
  let ?p = "rdg_el ''#X'' [word_of [1488, 1489], word_of [1490, 1491]]"
  let ?v = "rdg_el ''#Y'' [word_of [1490, 1491], word_of [1488, 1489]]"
  let ?app = "el ''app'' [el ''lem'' [word_of [1488, 1489], word_of [1490, 1491]], ?p, ?v]"
  have s: "rdg_serialization ?p = [1488, 1489, 32, 1490, 1491]"
    "rdg_serialization ?v = [1490, 1491, 32, 1488, 1489]"
    by (simp_all add: rdg_serialization_def rdg_el_def word_of_def str_def)
  have f: "format_text (\<lambda>s. s) (\<lambda>s. s) all_accents [1488, 1489, 32, 1490, 1491] = [1488, 1489, 32, 1490, 1491]"
    "format_text (\<lambda>s. s) (\<lambda>s. s) all_accents [1490, 1491, 32, 1488, 1489] = [1490, 1491, 32, 1488, 1489]"
    by (simp_all add: text_eval)
  have g: "group_letters [] [] [1488, 1489, 32, 1490, 1491] = [[], [1488], [1489], [32], [1490], [1491]]"
    "group_letters [] [] [1490, 1491, 32, 1488, 1489] = [[], [1490], [1491], [32], [1488], [1489]]"
    by (simp_all add: is_letter_def is_pointing_def)
  have u5: "[0..<5] = [0, 1, 2, 3, 4]" by (simp add: upt_rec)
  have sp: "strip_plene (\<lambda>s. s) (\<lambda>s. s) [1488, 1489, 32, 1490, 1491] = [1488, 1489, 32, 1490, 1491]"
    "strip_plene (\<lambda>s. s) (\<lambda>s. s) [1490, 1491, 32, 1488, 1489] = [1490, 1491, 32, 1488, 1489]"
    by (simp_all add: strip_plene_def u5 plene_step_def Let_def is_letter_def is_pointing_def)
  have tk: "py_split [1488, 1489, 32, 1490, 1491] = [[1488, 1489], [1490, 1491]]"
    "py_split [1490, 1491, 32, 1488, 1489] = [[1490, 1491], [1488, 1489]]"
    by (simp_all add: py_split_def py_isspace_def)
  have nv: "\<not> (\<forall>v\<in>set [?v]. norm_ser (\<lambda>s. s) (\<lambda>s. s) v = norm_ser (\<lambda>s. s) (\<lambda>s. s) ?p)"
    by (simp add: norm_ser_def s f)
  have no: "\<not> (\<forall>v\<in>set [?v]. plene_ser (\<lambda>s. s) (\<lambda>s. s) v = plene_ser (\<lambda>s. s) (\<lambda>s. s) ?p)"
    by (simp add: plene_ser_def s sp f)
  have ms: "\<forall>v\<in>set [?v]. mset (norm_tokens (\<lambda>s. s) (\<lambda>s. s) v) = mset (norm_tokens (\<lambda>s. s) (\<lambda>s. s) ?p)"
    by (simp add: norm_tokens_def norm_ser_def s f tk add.commute)
  define ty0 where
    "ty0 = classify (\<lambda>s. s) (\<lambda>s. s) (rdg_serialization ?p) [rdg_serialization ?v]"
  let ?cs = "[el ''lem'' [word_of [1488, 1489], word_of [1490, 1491]], ?p, ?v]"
  let ?root' = "Elem (tei ''app'') [(str ''type'', ty0)] None ?cs None"
  have rd: "xpath_desc ''rdg'' ?app = [?p, ?v]"
    by (simp add: el_def rdg_el_def word_of_def xpath_desc_def)
  have at: "app_type (\<lambda>s. s) (\<lambda>s. s) ?app = Inr ty0"
    by (simp add: app_type_def rd ty0_def)
  have cs: "add_types_list (\<lambda>s. s) (\<lambda>s. s) ?cs = Inr ?cs"
    by (simp add: el_def rdg_el_def word_of_def)
  have run: "add_types (\<lambda>s. s) (\<lambda>s. s) ?app = Inr ?root'"
    using at cs by (simp add: el_def)
  have a: "xpath_all ''app'' ?root' = [?root']"
    by (simp add: el_def rdg_el_def word_of_def xpath_all_def)
  have apps: "xpath_all ''app'' ?app = [?app]"
    by (simp add: el_def rdg_el_def word_of_def xpath_all_def)
  from add_types_first_matching_rule [OF run] nv no ms
  have "type_of ?root' = Some (str ''transposition'')"
    unfolding a apps by (simp add: rd)
  then show ?thesis
    unfolding app_types_def run by (simp add: a)
qed

section \<open>tei_collator: omitted readings\<close>

lemma py_replace_hash: "py_replace (str ''#'') [] s = filter (\<lambda>ch. ch \<noteq> 35) s"
proof (induction s)
  case Nil
  show ?case by simp
next
  case (Cons ch s)
  have "str ''#'' = [35]" by (simp add: str_def)
  with Cons show ?case by auto
qed

lemma remove_refs_eq:
  "remove_refs U refs = Inr U' \<Longrightarrow>
     U' = U - set (map (py_replace (str ''#'') []) refs) \<and>
     set (map (py_replace (str ''#'') []) refs) \<subseteq> U"
proof (induction refs arbitrary: U)
  case Nil
  then show ?case by simp
next
  case (Cons r refs)
  from Cons.prems have in_U: "py_replace (str ''#'') [] r \<in> U"
    and rest: "remove_refs (U - {py_replace (str ''#'') [] r}) refs = Inr U'"
    by (auto simp: Let_def split: if_splits)
  from Cons.IH [OF rest] in_U show ?case by auto
qed

lemma remove_covered_eq:
  "remove_covered U rdgs = Inr U' \<Longrightarrow>
     U' = U - set (concat (map (\<lambda>r. map (py_replace (str ''#'') []) (wit_refs r)) rdgs)) \<and>
     set (concat (map (\<lambda>r. map (py_replace (str ''#'') []) (wit_refs r)) rdgs)) \<subseteq> U"
proof (induction rdgs arbitrary: U)
  case Nil
  then show ?case by simp
next
  case (Cons r rdgs)
  from Cons.prems obtain refs U1 where w: "el_get r (str ''wit'') = Some refs"
    and r1: "remove_refs U (py_split refs) = Inr U1"
    and r2: "remove_covered U1 rdgs = Inr U'"
    by (auto split: option.splits sum.splits)
  have fr: "wit_refs r = py_split refs" by (simp add: wit_refs_def w)
  from remove_refs_eq [OF r1]
  have a: "U1 = U - set (map (py_replace (str ''#'') []) (wit_refs r))"
    "set (map (py_replace (str ''#'') []) (wit_refs r)) \<subseteq> U"
    by (simp_all add: fr)
  from Cons.IH [OF r2]
  have b: "U' = U1 - set (concat (map (\<lambda>r. map (py_replace (str ''#'') []) (wit_refs r)) rdgs))"
    "set (concat (map (\<lambda>r. map (py_replace (str ''#'') []) (wit_refs r)) rdgs)) \<subseteq> U1"
    by simp_all
  have c: "set (concat (map (\<lambda>r. map (py_replace (str ''#'') []) (wit_refs r)) (r # rdgs)))
      = set (map (py_replace (str ''#'') []) (wit_refs r)) \<union>
        set (concat (map (\<lambda>r. map (py_replace (str ''#'') []) (wit_refs r)) rdgs))"
    by simp
  show ?case unfolding c using a b by blast
qed

lemma py_split_aux_word:
  "list_all (\<lambda>ch. \<not> py_isspace ch) x \<Longrightarrow> py_split_aux cur (x @ s) = py_split_aux (cur @ x) s"
  by (induction x arbitrary: cur) auto

lemma py_isspace_32: "py_isspace 32"
  by (simp add: py_isspace_def)

lemma py_split_join:
  "list_all (\<lambda>x. x \<noteq> [] \<and> list_all (\<lambda>ch. \<not> py_isspace ch) x) xs \<Longrightarrow>
     py_split (py_join (str '' '') xs) = xs"
proof (induction "str '' ''" xs rule: py_join.induct)
  case 1
  show ?case by (simp add: py_split_def)
next
  case (2 x)
  then have "py_split_aux [] (x @ []) = py_split_aux ([] @ x) []"
    by (intro py_split_aux_word) simp
  with 2 show ?case by (simp add: py_split_def)
next
  case (3 x y ys)
  have sp: "str '' '' = [32]" by (simp add: str_def)
  from "3.prems" have x: "x \<noteq> []" "list_all (\<lambda>ch. \<not> py_isspace ch) x"
    and rest: "list_all (\<lambda>x. x \<noteq> [] \<and> list_all (\<lambda>ch. \<not> py_isspace ch) x) (y # ys)"
    by simp_all
  have "py_split (py_join (str '' '') (x # y # ys))
      = py_split_aux ([] @ x) (32 # py_join (str '' '') (y # ys))"
    unfolding py_split_def py_join.simps sp
    using py_split_aux_word [OF x(2), of "[]" "32 # py_join [32] (y # ys)"] by simp
  also have "\<dots> = x # py_split (py_join (str '' '') (y # ys))"
    using x(1) by (simp add: py_isspace_32 py_split_def)
  finally show ?case using "3.hyps" [OF rest] by simp
qed

lemma covered_omit_rdg:
  assumes "\<forall>w\<in>set (witnesses c). 35 \<notin> set w \<and> list_all (\<lambda>ch. \<not> py_isspace ch) w"
  shows "map (py_replace (str ''#'') []) (wit_refs (omit_rdg c U)) = filter (\<lambda>w. w \<in> U) (witnesses c)"
proof -
  have h: "str ''#'' = [35]" by (simp add: str_def)
  have ns: "\<not> py_isspace 35" by (simp add: py_isspace_def)
  have "list_all (\<lambda>x. x \<noteq> [] \<and> list_all (\<lambda>ch. \<not> py_isspace ch) x) (omit_rdg_wits c U)"
    using assms by (auto simp: omit_rdg_wits_def list_all_iff h ns)
  then have "wit_refs (omit_rdg c U) = omit_rdg_wits c U"
    by (simp add: wit_refs_def omit_rdg_def el_get_def py_split_join)
  moreover have "map (py_replace (str ''#'') []) (omit_rdg_wits c U) = filter (\<lambda>w. w \<in> U) (witnesses c)"
  proof -
    have "py_replace (str ''#'') [] (str ''#'' @ w) = w" if "w \<in> set (witnesses c)" for w
    proof -
      from assms that have "35 \<notin> set w" by blast
      then have "filter (\<lambda>ch. ch \<noteq> 35) w = w"
        by (induction w) auto
      then show ?thesis by (simp add: py_replace_hash [unfolded h] h)
    qed
    then have "map (\<lambda>x. py_replace (str ''#'') [] (str ''#'' @ x)) (filter (\<lambda>w. w \<in> U) (witnesses c))
        = map (\<lambda>x. x) (filter (\<lambda>w. w \<in> U) (witnesses c))"
      by (intro map_cong [OF refl]) simp
    then show ?thesis
      by (simp add: omit_rdg_wits_def comp_def)
  qed
  ultimately show ?thesis by simp
qed

lemma xpath_desc_children:
  "xpath_desc name (with_children e cs) =
     filter (\<lambda>d. tag d = tei name) (concat (map (\<lambda>c. c # descendants c) cs))"
  by (simp add: xpath_desc_def with_children_def)

lemma xpath_desc_self_children:
  "xpath_desc name e = filter (\<lambda>d. tag d = tei name) (concat (map (\<lambda>c. c # descendants c) (children e)))"
  by (cases e) (simp add: xpath_desc_def)

lemma omit_rdg_sel [simp]:
  "tag (omit_rdg c U) = tei ''rdg''" "descendants (omit_rdg c U) = []"
  by (simp_all add: omit_rdg_def)

lemma covered_first:
  "covered_witnesses (with_children app (omit_rdg c U # children app))
     = set (map (py_replace (str ''#'') []) (wit_refs (omit_rdg c U))) \<union> covered_witnesses app"
  unfolding covered_witnesses_def xpath_desc_children
  by (simp add: xpath_desc_self_children [of "''rdg''" app])

lemma covered_last:
  "covered_witnesses (with_children app (children app @ [omit_rdg c U]))
     = covered_witnesses app \<union> set (map (py_replace (str ''#'') []) (wit_refs (omit_rdg c U)))"
  unfolding covered_witnesses_def xpath_desc_children
  by (simp add: xpath_desc_self_children [of "''rdg''" app])

lemma cover_app_covered:
  assumes run: "cover_app c ext app = Inr app'"
    and sub: "set ext \<subseteq> set (witnesses c)"
    and wf: "\<forall>w\<in>set (witnesses c). 35 \<notin> set w \<and> list_all (\<lambda>ch. \<not> py_isspace ch) w"
  shows "app_covered c (set ext) app app'"
proof -
  from run obtain U where rc: "remove_covered (set ext) (xpath_desc ''rdg'' app) = Inr U"
    by (auto simp: cover_app_def split: sum.splits)
  from remove_covered_eq [OF rc]
  have U: "U = set ext - covered_witnesses app" and cov: "covered_witnesses app \<subseteq> set ext"
    by (simp_all add: covered_witnesses_def)
  have omit: "set (map (py_replace (str ''#'') []) (wit_refs (omit_rdg c U))) = U"
    unfolding covered_omit_rdg [OF wf] using U sub by auto
  show ?thesis
  proof (cases "U = {}")
    case True
    with run rc have "app' = app" by (simp add: cover_app_def)
    with True U cov show ?thesis by (auto simp: app_covered_def)
  next
    case False
    with run rc obtain l where l: "lemma_id c = Some l"
      by (auto simp: cover_app_def split: option.splits)
    have ref: "str ''#'' @ l \<in> set (omit_rdg_wits c U) \<longleftrightarrow> l \<in> U"
      using U sub by (auto simp: omit_rdg_wits_def)
    show ?thesis
    proof (cases "l \<in> U")
      case True
      with run rc l False ref
      have a: "app' = with_children app (omit_rdg c U # children app)"
        by (auto simp: cover_app_def split: if_splits)
      have "covered_witnesses app' = set ext"
        unfolding a covered_first omit using U cov by auto
      with a l True False cov show ?thesis
        by (simp add: app_covered_def U [symmetric])
    next
      case notin: False
      with run rc l False ref
      have a: "app' = with_children app (children app @ [omit_rdg c U])"
        by (auto simp: cover_app_def split: if_splits)
      have "covered_witnesses app' = set ext"
        unfolding a covered_last omit using U cov by auto
      with a l notin False cov show ?thesis
        by (simp add: app_covered_def U [symmetric])
    qed
  qed
qed

lemma extant_for_set:
  "extant_for c d ws = Inr ext \<Longrightarrow>
     set ext = {w \<in> set ws. \<exists>divs. map_of (tokens_by_witness c) w = Some divs \<and> d \<in> set divs}"
proof (induction ws arbitrary: ext)
  case Nil
  then show ?case by simp
next
  case (Cons w ws)
  from Cons.prems obtain divs r where m: "map_of (tokens_by_witness c) w = Some divs"
    and r: "extant_for c d ws = Inr r"
    and ext: "ext = (if d \<in> set divs then w # r else r)"
    by (auto split: option.splits sum.splits)
  from Cons.IH [OF r] m ext show ?case by auto
qed

lemma extant_after_Cons_division:
  assumes "is_division c x" and "el_get x (str ''n'') = Some d"
  shows "extant_after c E (x # cs) = extant_after c (extant_set c d) cs"
proof (cases "filter (is_division c) cs")
  case Nil
  with assms show ?thesis by (simp add: extant_after_def last_division_def)
next
  case (Cons a ds)
  have "last (a # ds) \<in> set (filter (is_division c) cs)"
    unfolding Cons by (rule last_in_set) simp
  then have "is_division c (last (a # ds))" by simp
  then obtain d' where d': "el_get (last (a # ds)) (str ''n'') = Some d'"
    by (auto simp: is_division_def)
  have "last_division c (x # cs) = Some d'"
    using assms(1) Cons d' by (simp add: last_division_def)
  moreover have "last_division c cs = Some d'"
    using Cons d' by (simp add: last_division_def)
  ultimately show ?thesis by (simp add: extant_after_def)
qed

lemma extant_after_Cons_other:
  assumes "\<not> is_division c x"
  shows "extant_after c E (x # cs) = extant_after c E cs"
  using assms by (simp add: extant_after_def last_division_def)

lemma omission_loop_covered:
  assumes wf: "\<forall>w\<in>set (witnesses c). 35 \<notin> set w \<and> list_all (\<lambda>ch. \<not> py_isspace ch) w"
  shows "omission_loop c ext cs = Inr cs' \<Longrightarrow> set ext \<subseteq> set (witnesses c) \<Longrightarrow>
     length cs' = length cs \<and>
     (\<forall>i<length cs. raw_tag (tag (cs ! i)) = str ''app'' \<and> \<not> is_division c (cs ! i) \<longrightarrow>
        app_covered c (extant_after c (set ext) (take i cs)) (cs ! i) (cs' ! i))"
proof (induction cs arbitrary: ext cs')
  case Nil
  then show ?case by simp
next
  case (Cons x cs)
  show ?case
  proof (cases "is_division c x")
    case True
    with Cons.prems(1) obtain d ext1 rest' where d: "el_get x (str ''n'') = Some d"
      and e1: "extant_for c d (witnesses c) = Inr ext1"
      and r: "omission_loop c ext1 cs = Inr rest'" and cs': "cs' = x # rest'"
      by (auto split: option.splits sum.splits)
    from extant_for_set [OF e1] have s1: "set ext1 = extant_set c d"
      by (simp add: extant_set_def)
    then have sub1: "set ext1 \<subseteq> set (witnesses c)" by (auto simp: extant_set_def)
    from Cons.IH [OF r sub1] have len: "length rest' = length cs"
      and ih: "\<forall>i<length cs. raw_tag (tag (cs ! i)) = str ''app'' \<and> \<not> is_division c (cs ! i) \<longrightarrow>
        app_covered c (extant_after c (set ext1) (take i cs)) (cs ! i) (rest' ! i)"
      by simp_all
    show ?thesis
    proof (intro conjI allI impI)
      show "length cs' = length (x # cs)" by (simp add: cs' len)
    next
      fix i assume i: "i < length (x # cs)"
        and a: "raw_tag (tag ((x # cs) ! i)) = str ''app'' \<and> \<not> is_division c ((x # cs) ! i)"
      show "app_covered c (extant_after c (set ext) (take i (x # cs))) ((x # cs) ! i) (cs' ! i)"
      proof (cases i)
        case 0
        with a True show ?thesis by simp
      next
        case (Suc j)
        with i a ih have "app_covered c (extant_after c (set ext1) (take j cs)) (cs ! j) (rest' ! j)"
          by simp
        then show ?thesis
          by (simp add: Suc cs' extant_after_Cons_division [OF True d] s1)
      qed
    qed
  next
    case False
    show ?thesis
    proof (cases "raw_tag (tag x) = str ''app''")
      case app: True
      with False Cons.prems(1) obtain x' rest' where x': "cover_app c ext x = Inr x'"
        and r: "omission_loop c ext cs = Inr rest'" and cs': "cs' = x' # rest'"
        by (auto split: sum.splits)
      from Cons.IH [OF r Cons.prems(2)] have len: "length rest' = length cs"
        and ih: "\<forall>i<length cs. raw_tag (tag (cs ! i)) = str ''app'' \<and> \<not> is_division c (cs ! i) \<longrightarrow>
          app_covered c (extant_after c (set ext) (take i cs)) (cs ! i) (rest' ! i)"
        by simp_all
      have here: "app_covered c (set ext) x x'"
        by (rule cover_app_covered [OF x' Cons.prems(2) wf])
      show ?thesis
      proof (intro conjI allI impI)
        show "length cs' = length (x # cs)" by (simp add: cs' len)
      next
        fix i assume i: "i < length (x # cs)"
          and a: "raw_tag (tag ((x # cs) ! i)) = str ''app'' \<and> \<not> is_division c ((x # cs) ! i)"
        show "app_covered c (extant_after c (set ext) (take i (x # cs))) ((x # cs) ! i) (cs' ! i)"
        proof (cases i)
          case 0
          with here show ?thesis
            by (simp add: cs' extant_after_def last_division_def)
        next
          case (Suc j)
          with i a ih have "app_covered c (extant_after c (set ext) (take j cs)) (cs ! j) (rest' ! j)"
            by simp
          then show ?thesis
            by (simp add: Suc cs' extant_after_Cons_other [OF False])
        qed
      qed
    next
      case other: False
      with False Cons.prems(1) obtain rest' where
        r: "omission_loop c ext cs = Inr rest'" and cs': "cs' = x # rest'"
        by (auto split: sum.splits)
      from Cons.IH [OF r Cons.prems(2)] have len: "length rest' = length cs"
        and ih: "\<forall>i<length cs. raw_tag (tag (cs ! i)) = str ''app'' \<and> \<not> is_division c (cs ! i) \<longrightarrow>
          app_covered c (extant_after c (set ext) (take i cs)) (cs ! i) (rest' ! i)"
        by simp_all
      show ?thesis
      proof (intro conjI allI impI)
        show "length cs' = length (x # cs)" by (simp add: cs' len)
      next
        fix i assume i: "i < length (x # cs)"
          and a: "raw_tag (tag ((x # cs) ! i)) = str ''app'' \<and> \<not> is_division c ((x # cs) ! i)"
        show "app_covered c (extant_after c (set ext) (take i (x # cs))) ((x # cs) ! i) (cs' ! i)"
        proof (cases i)
          case 0
          with a other show ?thesis by simp
        next
          case (Suc j)
          with i a ih have "app_covered c (extant_after c (set ext) (take j cs)) (cs ! j) (rest' ! j)"
            by simp
          then show ?thesis
            by (simp add: Suc cs' extant_after_Cons_other [OF False])
        qed
      qed
    qed
  qed
qed

text \<open>
  C7. Let the witness identifiers hold no \<open>#\<close> and no whitespace, and let the second
  part of \<open>collate\<close> run to its end. Then every child of the collation is still in its
  place, and for every \<open>app\<close> among them, with \<open>ext\<close> the witnesses extant at the last
  division before it (none before the first division): the witnesses named by the
  readings of the result are exactly \<open>ext\<close>; the apparatus is unchanged when its readings
  named all of \<open>ext\<close> already; otherwise it has one more child, an empty \<open>rdg\<close> whose
  \<open>wit\<close> lists exactly the uncovered witnesses, put first when the lemma witness is one
  of them and last when not.
\<close>

theorem collate_coverage:
  assumes "add_omissions c collation = Inr collation'"
    and "\<forall>w\<in>set (witnesses c). 35 \<notin> set w \<and> list_all (\<lambda>ch. \<not> py_isspace ch) w"
  shows "length collation' = length collation \<and>
     (\<forall>i<length collation. raw_tag (tag (collation ! i)) = str ''app'' \<longrightarrow>
        (let ext = (case last_division c (take i collation) of
                      None \<Rightarrow> {} | Some d \<Rightarrow> extant_set c d);
             uncovered = ext - covered_witnesses (collation ! i)
         in covered_witnesses (collation' ! i) = ext \<and>
            (if uncovered = {} then collation' ! i = collation ! i
             else \<exists>l. lemma_id c = Some l \<and>
                    collation' ! i =
                      (if l \<in> uncovered
                       then with_children (collation ! i)
                              (omit_rdg c uncovered # children (collation ! i))
                       else with_children (collation ! i)
                              (children (collation ! i) @ [omit_rdg c uncovered])))))"
proof -
  have ne: "str ''milestone'' \<noteq> str ''app''" by (simp add: str_def)
  have nd: "\<not> is_division c x" if "raw_tag (tag x) = str ''app''" for x
    using that ne by (auto simp: is_division_def)
  from omission_loop_covered [OF assms(2), of "[]" collation collation'] assms(1)
  have len: "length collation' = length collation"
    and all: "\<forall>i<length collation. raw_tag (tag (collation ! i)) = str ''app'' \<and>
        \<not> is_division c (collation ! i) \<longrightarrow>
        app_covered c (extant_after c (set []) (take i collation)) (collation ! i) (collation' ! i)"
    by (simp_all add: add_omissions_def)
  show ?thesis
  proof (intro conjI allI impI)
    show "length collation' = length collation" by (rule len)
  next
    fix i assume i: "i < length collation" and a: "raw_tag (tag (collation ! i)) = str ''app''"
    define E where "E = (case last_division c (take i collation) of
                      None \<Rightarrow> {} | Some d \<Rightarrow> extant_set c d)"
    from all i a nd [OF a]
    have ac: "app_covered c E (collation ! i) (collation' ! i)"
      by (simp add: extant_after_def E_def)
    show "let ext = (case last_division c (take i collation) of
                      None \<Rightarrow> {} | Some d \<Rightarrow> extant_set c d);
             uncovered = ext - covered_witnesses (collation ! i)
         in covered_witnesses (collation' ! i) = ext \<and>
            (if uncovered = {} then collation' ! i = collation ! i
             else \<exists>l. lemma_id c = Some l \<and>
                    collation' ! i =
                      (if l \<in> uncovered
                       then with_children (collation ! i)
                              (omit_rdg c uncovered # children (collation ! i))
                       else with_children (collation ! i)
                              (children (collation ! i) @ [omit_rdg c uncovered])))"
      unfolding E_def [symmetric] Let_def using ac unfolding app_covered_def
      by (elim conjE) (intro conjI, assumption+)
  qed
qed

lemma raw_tag_milestone: "raw_tag (tei ''milestone'') = str ''milestone''"
  by (simp add: raw_tag_def tei_def tei_ns_def str_def)

lemma hash_refs:
  "py_replace (str ''#'') [] (str ''#A'') = str ''A''"
  "py_replace (str ''#'') [] (str ''#B'') = str ''B''"
  "py_replace (str ''#'') [] (str ''#C'') = str ''C''"
  by (simp_all add: py_replace_hash str_def)

lemma example_divisions:
  "is_division example_collator (milestone ''verse'' n)"
  "\<not> is_division example_collator (el ''app'' cs)"
  "el_get (milestone ''verse'' n) (str ''n'') = Some (str n)"
  by (simp_all add: is_division_def milestone_def el_def example_collator_def el_get_def
      raw_tag_milestone raw_tag_names)

lemma example_extant:
  "extant_for example_collator (str ''v1'') (witnesses example_collator) =
     Inr [str ''A'', str ''B'', str ''C'']"
  "extant_for example_collator (str ''v2'') (witnesses example_collator) =
     Inr [str ''A'', str ''C'']"
  by (simp_all add: example_collator_def)

lemma example_omit_rdg:
  "omit_rdg example_collator {str ''B''} = rdg_el ''#B'' []"
  "omit_rdg example_collator {str ''A''} = rdg_el ''#A'' []"
  by (simp_all add: omit_rdg_def omit_rdg_wits_def example_collator_def rdg_el_def str_append)

lemma example_lemma: "lemma_id example_collator = Some (str ''A'')"
  by (simp add: example_collator_def)

lemma example_cover_first:
  "cover_app example_collator [str ''A'', str ''B'', str ''C'']
     (el ''app'' [rdg_el ''#A'' [word ''a''], rdg_el ''#C'' [word ''c'']]) =
   Inr (el ''app'' [rdg_el ''#A'' [word ''a''], rdg_el ''#C'' [word ''c''], rdg_el ''#B'' []])"
proof -
  have r: "remove_covered (set [str ''A'', str ''B'', str ''C''])
      (xpath_desc ''rdg'' (el ''app'' [rdg_el ''#A'' [word ''a''], rdg_el ''#C'' [word ''c'']])) =
    Inr {str ''B''}"
    by (simp add: xml_eval py_split_refs hash_refs insert_Diff_if del: set_filter)
  have w: "omit_rdg_wits example_collator {str ''B''} = [str ''#B'']"
    by (simp add: omit_rdg_wits_def example_collator_def str_append)
  show ?thesis
    unfolding cover_app_def r
    by (simp add: w example_omit_rdg example_lemma str_append el_def with_children_def)
qed

lemma example_cover_second:
  "cover_app example_collator [str ''A'', str ''C'']
     (el ''app'' [rdg_el ''#C'' [word ''c'']]) =
   Inr (el ''app'' [rdg_el ''#A'' [], rdg_el ''#C'' [word ''c'']])"
proof -
  have r: "remove_covered (set [str ''A'', str ''C''])
      (xpath_desc ''rdg'' (el ''app'' [rdg_el ''#C'' [word ''c'']])) = Inr {str ''A''}"
    by (simp add: xml_eval py_split_refs hash_refs insert_Diff_if del: set_filter)
  have w: "omit_rdg_wits example_collator {str ''A''} = [str ''#A'']"
    by (simp add: omit_rdg_wits_def example_collator_def str_append)
  show ?thesis
    unfolding cover_app_def r
    by (simp add: w example_omit_rdg example_lemma str_append el_def with_children_def)
qed

lemma example_add_omissions:
  "add_omissions example_collator example_collation =
     Inr [milestone ''verse'' ''v1'',
          el ''app'' [rdg_el ''#A'' [word ''a''], rdg_el ''#C'' [word ''c''], rdg_el ''#B'' []],
          milestone ''verse'' ''v2'',
          el ''app'' [rdg_el ''#A'' [], rdg_el ''#C'' [word ''c'']]]"
proof -
  have a: "raw_tag (tag (el ''app'' cs)) = str ''app''" for cs
    by (simp add: el_def raw_tag_names)
  show ?thesis
    unfolding add_omissions_def example_collation_def
    by (simp add: example_divisions example_extant example_cover_first example_cover_second a)
qed

text \<open>
  In the first verse witness \<open>B\<close> has no reading and the empty reading comes last; in
  the second the lemma witness \<open>A\<close> has none and the empty reading comes first.
\<close>

theorem collate_coverage_witness:
  "add_omissions example_collator example_collation =
     Inr [milestone ''verse'' ''v1'',
          el ''app'' [rdg_el ''#A'' [word ''a''], rdg_el ''#C'' [word ''c''], rdg_el ''#B'' []],
          milestone ''verse'' ''v2'',
          el ''app'' [rdg_el ''#A'' [], rdg_el ''#C'' [word ''c'']]] \<and>
   covered_witnesses
     (el ''app'' [rdg_el ''#A'' [word ''a''], rdg_el ''#C'' [word ''c''], rdg_el ''#B'' []]) =
     extant_set example_collator (str ''v1'') \<and>
   covered_witnesses (el ''app'' [rdg_el ''#A'' [], rdg_el ''#C'' [word ''c'']]) =
     extant_set example_collator (str ''v2'')"
proof -
  have wf: "\<forall>w\<in>set (witnesses example_collator). 35 \<notin> set w \<and> list_all (\<lambda>ch. \<not> py_isspace ch) w"
    by (simp add: example_collator_def str_def py_isspace_def)
  have a: "raw_tag (tag (el ''app'' cs)) = str ''app''" for cs
    by (simp add: el_def raw_tag_names)
  have l1: "last_division example_collator (take 1 example_collation) = Some (str ''v1'')"
    by (simp add: example_collation_def last_division_def example_divisions)
  have l3: "last_division example_collator (take 3 example_collation) = Some (str ''v2'')"
    by (simp add: example_collation_def last_division_def example_divisions numeral_3_eq_3)
  note t = collate_coverage [OF example_add_omissions wf]
  from t have "\<forall>i<length example_collation.
      raw_tag (tag (example_collation ! i)) = str ''app'' \<longrightarrow>
      covered_witnesses ([milestone ''verse'' ''v1'',
          el ''app'' [rdg_el ''#A'' [word ''a''], rdg_el ''#C'' [word ''c''], rdg_el ''#B'' []],
          milestone ''verse'' ''v2'',
          el ''app'' [rdg_el ''#A'' [], rdg_el ''#C'' [word ''c'']]] ! i) =
      (case last_division example_collator (take i example_collation) of
         None \<Rightarrow> {} | Some d \<Rightarrow> extant_set example_collator d)"
    by (simp add: Let_def)
  then have
    "1 < length example_collation \<longrightarrow> raw_tag (tag (example_collation ! 1)) = str ''app'' \<longrightarrow>
      covered_witnesses ([milestone ''verse'' ''v1'',
          el ''app'' [rdg_el ''#A'' [word ''a''], rdg_el ''#C'' [word ''c''], rdg_el ''#B'' []],
          milestone ''verse'' ''v2'',
          el ''app'' [rdg_el ''#A'' [], rdg_el ''#C'' [word ''c'']]] ! 1) =
      (case last_division example_collator (take 1 example_collation) of
         None \<Rightarrow> {} | Some d \<Rightarrow> extant_set example_collator d)"
    "3 < length example_collation \<longrightarrow> raw_tag (tag (example_collation ! 3)) = str ''app'' \<longrightarrow>
      covered_witnesses ([milestone ''verse'' ''v1'',
          el ''app'' [rdg_el ''#A'' [word ''a''], rdg_el ''#C'' [word ''c''], rdg_el ''#B'' []],
          milestone ''verse'' ''v2'',
          el ''app'' [rdg_el ''#A'' [], rdg_el ''#C'' [word ''c'']]] ! 3) =
      (case last_division example_collator (take 3 example_collation) of
         None \<Rightarrow> {} | Some d \<Rightarrow> extant_set example_collator d)"
    by blast+
  then have
    "covered_witnesses
       (el ''app'' [rdg_el ''#A'' [word ''a''], rdg_el ''#C'' [word ''c''], rdg_el ''#B'' []]) =
       extant_set example_collator (str ''v1'')"
    "covered_witnesses (el ''app'' [rdg_el ''#A'' [], rdg_el ''#C'' [word ''c'']]) =
       extant_set example_collator (str ''v2'')"
    unfolding l1 l3 by (simp_all add: example_collation_def a numeral_3_eq_3)
  with example_add_omissions show ?thesis by simp
qed

section \<open>tei_labeler: label\<close>



lemma skeleton_sel [simp]:
  "tag (skeleton e) = tag e" "text_of (skeleton e) = text_of e" "tail (skeleton e) = tail e"
  "children (skeleton e) = map skeleton (children e)"
  by (cases e; simp)+

lemma descendants_skeleton: "descendants (skeleton e) = map skeleton (descendants e)"
  by (induction e rule: descendants.induct) (simp add: map_concat o_def cong: map_cong)

lemma xpath_desc_skeleton: "xpath_desc name (skeleton e) = map skeleton (xpath_desc name e)"
  by (simp add: xpath_desc_def descendants_skeleton filter_map o_def)

lemma rdg_serialization_skeleton: "rdg_serialization (skeleton r) = rdg_serialization r"
  by (simp add: rdg_serialization_def o_def cong: option.case_cong)

lemma app_type_skeleton: "app_type nfkd nfc (skeleton e) = app_type nfkd nfc e"
  unfolding app_type_def xpath_desc_skeleton
  by (cases "xpath_desc ''rdg'' e") (simp_all add: rdg_serialization_skeleton o_def)

lemma app_type_same:
  "skeleton e = skeleton e' \<Longrightarrow> app_type nfkd nfc e = app_type nfkd nfc e'"
  by (metis app_type_skeleton)




lemma typed_new_children:
  assumes "typed nfkd nfc (Elem t a x cs y)" and "map skeleton cs' = map skeleton cs"
    and "\<forall>c\<in>set cs'. typed nfkd nfc c"
  shows "typed nfkd nfc (Elem t a x cs' y)"
proof -
  have "skeleton (Elem t a x cs' y) = skeleton (Elem t a x cs y)"
    using assms(2) by simp
  then have "app_type nfkd nfc (Elem t a x cs' y) = app_type nfkd nfc (Elem t a x cs y)"
    by (rule app_type_same)
  with assms(1,3) show ?thesis by (cases "t = tei ''app''") simp_all
qed




lemma set_first_children_None:
  "(set_first_children t new e = None) = (filter (\<lambda>d. tag d = t) (e # descendants e) = [])"
  "(set_first_children_list t new cs = None) =
     (filter (\<lambda>d. tag d = t) (concat (map (\<lambda>c. c # descendants c) cs)) = [])"
proof (induction t new e and t new cs rule: set_first_children_set_first_children_list.induct)
  case (1 t new tg a x cs y)
  then show ?case by simp
next
  case (2 t new)
  show ?case by simp
next
  case (3 t new c cs)
  have split: "filter (\<lambda>d. tag d = t) (concat (map (\<lambda>c. c # descendants c) (c # cs))) =
      filter (\<lambda>d. tag d = t) (c # descendants c) @
      filter (\<lambda>d. tag d = t) (concat (map (\<lambda>c. c # descendants c) cs))"
    by simp
  show ?case
  proof (cases "set_first_children t new c")
    case None
    with "3.IH"(1) have a: "filter (\<lambda>d. tag d = t) (c # descendants c) = []" by blast
    show ?thesis unfolding split a using "3.IH"(2) [OF None] None by simp
  next
    case (Some c')
    with "3.IH"(1) have a: "filter (\<lambda>d. tag d = t) (c # descendants c) \<noteq> []" by simp
    show ?thesis unfolding split using a Some by (simp del: filter.simps)
  qed
qed

lemma set_first_children_props:
  "filter (\<lambda>d. tag d = t) (e # descendants e) = l # rest \<Longrightarrow>
     \<exists>e'. set_first_children t new e = Some e' \<and>
          (\<exists>l' rest'. filter (\<lambda>d. tag d = t) (e' # descendants e') = l' # rest' \<and>
             children l' = new) \<and>
          (map skeleton new = map skeleton (children l) \<longrightarrow>
             skeleton e' = skeleton e \<and>
             (typed nfkd nfc e \<longrightarrow> (\<forall>c\<in>set new. typed nfkd nfc c) \<longrightarrow> typed nfkd nfc e')) \<and>
          (new = children l \<longrightarrow> e' = e)"
  "filter (\<lambda>d. tag d = t) (concat (map (\<lambda>c. c # descendants c) cs)) = l # rest \<Longrightarrow>
     \<exists>cs'. set_first_children_list t new cs = Some cs' \<and>
          (\<exists>l' rest'. filter (\<lambda>d. tag d = t) (concat (map (\<lambda>c. c # descendants c) cs')) =
               l' # rest' \<and> children l' = new) \<and>
          (map skeleton new = map skeleton (children l) \<longrightarrow>
             map skeleton cs' = map skeleton cs \<and>
             ((\<forall>c\<in>set cs. typed nfkd nfc c) \<longrightarrow> (\<forall>c\<in>set new. typed nfkd nfc c) \<longrightarrow>
                (\<forall>c\<in>set cs'. typed nfkd nfc c))) \<and>
          (new = children l \<longrightarrow> cs' = cs)"
proof (induction t new e and t new cs arbitrary: l rest and l rest
    rule: set_first_children_set_first_children_list.induct)
  case (1 t new tg a x cs y)
  show ?case
  proof (cases "tg = t")
    case True
    with "1.prems" have l: "l = Elem tg a x cs y" by simp
    have "typed nfkd nfc (Elem tg a x new y)"
      if "map skeleton new = map skeleton cs" "typed nfkd nfc (Elem tg a x cs y)"
        "\<forall>c\<in>set new. typed nfkd nfc c"
      by (rule typed_new_children [OF that(2) that(1) that(3)])
    with True l show ?thesis by simp
  next
    case False
    with "1.prems" have f: "filter (\<lambda>d. tag d = t) (concat (map (\<lambda>c. c # descendants c) cs)) = l # rest"
      by simp
    from "1.IH" [OF False f] obtain cs' where
      s: "set_first_children_list t new cs = Some cs'"
      and h: "\<exists>l' rest'. filter (\<lambda>d. tag d = t) (concat (map (\<lambda>c. c # descendants c) cs')) =
               l' # rest' \<and> children l' = new"
      and k: "map skeleton new = map skeleton (children l) \<longrightarrow>
             map skeleton cs' = map skeleton cs \<and>
             ((\<forall>c\<in>set cs. typed nfkd nfc c) \<longrightarrow> (\<forall>c\<in>set new. typed nfkd nfc c) \<longrightarrow>
                (\<forall>c\<in>set cs'. typed nfkd nfc c))"
      and i: "new = children l \<longrightarrow> cs' = cs"
      by blast
    have e': "set_first_children t new (Elem tg a x cs y) = Some (Elem tg a x cs' y)"
      using False s by simp
    have h': "\<exists>l' rest'. filter (\<lambda>d. tag d = t)
        (Elem tg a x cs' y # descendants (Elem tg a x cs' y)) = l' # rest' \<and> children l' = new"
      using h False by simp
    have k1: "skeleton (Elem tg a x cs' y) = skeleton (Elem tg a x cs y)"
      if "map skeleton new = map skeleton (children l)"
      using k that by simp
    have k2: "typed nfkd nfc (Elem tg a x cs' y)"
      if m: "map skeleton new = map skeleton (children l)" and ty: "typed nfkd nfc (Elem tg a x cs y)"
        and n: "\<forall>c\<in>set new. typed nfkd nfc c"
    proof (rule typed_new_children [OF ty])
      show "map skeleton cs' = map skeleton cs" using k m by simp
      from ty have "\<forall>c\<in>set cs. typed nfkd nfc c" by simp
      with k m n show "\<forall>c\<in>set cs'. typed nfkd nfc c" by blast
    qed
    from e' h' k1 k2 i show ?thesis by blast
  qed
next
  case (2 t new)
  then show ?case by simp
next
  case (3 t new c cs)
  show ?case
  proof (cases "filter (\<lambda>d. tag d = t) (c # descendants c)")
    case Nil
    then have n: "set_first_children t new c = None"
      by (simp only: set_first_children_None)
    from "3.prems" Nil have f: "filter (\<lambda>d. tag d = t) (concat (map (\<lambda>c. c # descendants c) cs)) = l # rest"
      by (simp split: if_splits)
    from "3.IH"(2) [OF n f] obtain cs' where
      s: "set_first_children_list t new cs = Some cs'"
      and h: "\<exists>l' rest'. filter (\<lambda>d. tag d = t) (concat (map (\<lambda>c. c # descendants c) cs')) =
               l' # rest' \<and> children l' = new"
      and k: "map skeleton new = map skeleton (children l) \<longrightarrow>
             map skeleton cs' = map skeleton cs \<and>
             ((\<forall>c\<in>set cs. typed nfkd nfc c) \<longrightarrow> (\<forall>c\<in>set new. typed nfkd nfc c) \<longrightarrow>
                (\<forall>c\<in>set cs'. typed nfkd nfc c))"
      and i: "new = children l \<longrightarrow> cs' = cs"
      by blast
    have r: "set_first_children_list t new (c # cs) = Some (c # cs')"
      using n s by simp
    have h': "\<exists>l' rest'. filter (\<lambda>d. tag d = t)
        (concat (map (\<lambda>c. c # descendants c) (c # cs'))) = l' # rest' \<and> children l' = new"
      using h Nil by (simp split: if_splits)
    from r h' k i show ?thesis by auto
  next
    case (Cons l1 rest1)
    with "3.prems" have l1: "l1 = l" by (simp split: if_splits)
    from "3.IH"(1) [OF Cons [unfolded l1]] obtain c' where
      s: "set_first_children t new c = Some c'"
      and h: "\<exists>l' rest'. filter (\<lambda>d. tag d = t) (c' # descendants c') = l' # rest' \<and>
             children l' = new"
      and k: "map skeleton new = map skeleton (children l) \<longrightarrow>
             skeleton c' = skeleton c \<and>
             (typed nfkd nfc c \<longrightarrow> (\<forall>c\<in>set new. typed nfkd nfc c) \<longrightarrow> typed nfkd nfc c')"
      and i: "new = children l \<longrightarrow> c' = c"
      by blast
    have r: "set_first_children_list t new (c # cs) = Some (c' # cs)"
      using s by simp
    from h obtain l' rest' where
      "filter (\<lambda>d. tag d = t) (c' # descendants c') = l' # rest'" "children l' = new"
      by blast
    then have h': "\<exists>l' rest'. filter (\<lambda>d. tag d = t)
        (concat (map (\<lambda>c. c # descendants c) (c' # cs))) = l' # rest' \<and> children l' = new"
      by (auto split: if_splits)
    from r h' k i show ?thesis by auto
  qed
qed

lemma el_set_sel [simp]:
  "tag (el_set e k v) = tag e" "children (el_set e k v) = children e"
  "text_of (el_set e k v) = text_of e" "tail (el_set e k v) = tail e"
  "attrib (el_set e k v) = dict_set k v (attrib e)"
  by (simp_all add: el_set_def)

lemma with_children_sel [simp]:
  "tag (with_children e cs) = tag e" "children (with_children e cs) = cs"
  "text_of (with_children e cs) = text_of e" "tail (with_children e cs) = tail e"
  "attrib (with_children e cs) = attrib e"
  by (simp_all add: with_children_def)


lemma skeleton_eq:
  "skeleton e = Elem (tag e) [] (text_of e) (map skeleton (children e)) (tail e)"
  by (cases e) simp

lemma skeleton_el_set [simp]: "skeleton (el_set e k v) = skeleton e"
  by (simp add: skeleton_eq [of "el_set e k v"] skeleton_eq [of e])






text \<open>The branch of \<open>add_indices\<close> for an apparatus.\<close>

lemma add_indices_app:
  assumes "raw_tag (tag e) \<noteq> str ''divGen''" "raw_tag (tag e) \<noteq> str ''w''"
    and "raw_tag (tag e) = str ''app''"
  shows "add_indices st e = Inr (st', e') \<longleftrightarrow>
     (\<exists>lem rest cs' app_n. xpath_desc ''lem'' e = lem # rest \<and>
        add_indices_list (ensure_w st) (children lem) = Inr (st', cs') \<and>
        app_label (div_indices (ensure_w st)) st' (set_lem_children cs' e) = Inr app_n \<and>
        e' = el_set (set_lem_children cs' e) (str ''n'') app_n)"
proof (cases "xpath_desc ''lem'' e")
  case Nil
  then show ?thesis unfolding add_indices.simps [of st e] using assms by simp
next
  case (Cons lem rest)
  show ?thesis
  proof (cases "add_indices_list (ensure_w st) (children lem)")
    case (Inl err)
    then show ?thesis unfolding add_indices.simps [of st e] using assms Cons by simp
  next
    case (Inr p)
    obtain st1 cs1 where p: "p = (st1, cs1)" by (cases p)
    show ?thesis
    proof (cases "app_label (div_indices (ensure_w st)) st1 (set_lem_children cs1 e)")
      case (Inl err)
      then show ?thesis unfolding add_indices.simps [of st e] using assms Cons Inr p by auto
    next
      case (Inr app_n)
      then show ?thesis unfolding add_indices.simps [of st e]
        using assms Cons \<open>add_indices_list (ensure_w st) (children lem) = Inr p\<close> p by auto
    qed
  qed
qed



lemma add_indices_list_Cons:
  "add_indices_list st (c # cs) = Inr (st', r) \<longleftrightarrow>
     (\<exists>st1 c1 cs1. add_indices st c = Inr (st1, c1) \<and>
        add_indices_list st1 cs = Inr (st', cs1) \<and> r = c1 # cs1)"
  by (auto split: sum.splits)









lemma digits_of_digits: "list_all is_digit (digits_of n)"
proof (induction n rule: digits_of.induct)
  case (1 n)
  show ?case
  proof (cases "n < 10")
    case True
    then show ?thesis by (simp add: digits_of.simps [of n] is_digit_def)
  next
    case False
    have "n mod 10 < 10" by simp
    then have "is_digit (48 + n mod 10)" unfolding is_digit_def by linarith
    with False "1.IH" show ?thesis by (simp add: digits_of.simps [of n])
  qed
qed

lemma digits_of_not_Nil: "digits_of n \<noteq> []"
  by (simp add: digits_of.simps [of n])

lemma parse_digits_all:
  "list_all is_digit xs \<Longrightarrow>
     parse_digits acc xs = Some (foldl (\<lambda>a c. 10 * a + (c - 48)) acc xs)"
  by (induction acc xs rule: parse_digits.induct) simp_all

lemma digits_value: "foldl (\<lambda>a c. 10 * a + (c - 48)) 0 (digits_of n) = n"
proof (induction n rule: digits_of.induct)
  case (1 n)
  show ?case
  proof (cases "n < 10")
    case True
    then show ?thesis by (simp add: digits_of.simps [of n])
  next
    case False
    with "1.IH" show ?thesis by (simp add: digits_of.simps [of n])
  qed
qed

lemma parse_nat_digits: "parse_nat (digits_of n) = Some n"
proof -
  obtain c cs where d: "digits_of n = c # cs"
    using digits_of_not_Nil [of n] by (cases "digits_of n") auto
  have a: "list_all is_digit (c # cs)" using digits_of_digits [of n] d by simp
  have "foldl (\<lambda>a c. 10 * a + (c - 48)) 0 (c # cs) = n" using digits_value [of n] d by simp
  then have "foldl (\<lambda>a c. 10 * a + (c - 48)) (c - 48) cs = n" by simp
  with a show ?thesis by (simp add: parse_nat_def d parse_digits_all)
qed

lemma digit_not_space: "is_digit c \<Longrightarrow> \<not> py_isspace c"
  by (auto simp: is_digit_def py_isspace_def)

lemma py_strip_digits: "py_strip (digits_of n) = digits_of n"
proof -
  have ne: "digits_of n \<noteq> []" by (rule digits_of_not_Nil)
  have all: "list_all is_digit (digits_of n)" by (rule digits_of_digits)
  from ne all have "\<not> py_isspace (hd (digits_of n))"
    by (cases "digits_of n") (auto dest: digit_not_space)
  then have a: "dropWhile py_isspace (digits_of n) = digits_of n"
    by (simp add: dropWhile_eq_self_iff)
  from ne all have "is_digit (last (digits_of n))"
    by (metis last_in_set list_all_iff)
  then have "\<not> py_isspace (hd (rev (digits_of n)))"
    using ne by (simp add: hd_rev digit_not_space)
  then have "dropWhile py_isspace (rev (digits_of n)) = rev (digits_of n)"
    by (simp add: dropWhile_eq_self_iff)
  with a show ?thesis by (simp add: py_strip_def)
qed

lemma py_int_str: "0 \<le> i \<Longrightarrow> py_int (py_str_int i) = Inr i"
proof -
  assume i: "0 \<le> i"
  obtain c cs where d: "digits_of (nat i) = c # cs"
    using digits_of_not_Nil [of "nat i"] by (cases "digits_of (nat i)") auto
  have "is_digit c" using digits_of_digits [of "nat i"] d by simp
  then have c: "c \<noteq> 45" "c \<noteq> 43" by (auto simp: is_digit_def)
  have "parse_nat (c # cs) = Some (nat i)" using parse_nat_digits [of "nat i"] d by simp
  with i c show ?thesis
    by (simp add: py_int_def py_str_int_def py_strip_digits d [symmetric])
      (simp add: d)
qed

lemma py_str_int_inj: "0 \<le> i \<Longrightarrow> 0 \<le> j \<Longrightarrow> py_str_int i = py_str_int j \<longleftrightarrow> i = j"
  by (metis py_int_str sum.inject(2))

lemma py_find_char:
  "c \<notin> set pre \<Longrightarrow> py_find [c] (pre @ c # rest) = Some (length pre)"
  by (induction pre) auto

lemma add_indices_word:
  "raw_tag (tag c) = str ''w'' \<Longrightarrow>
     add_indices st c = (case word_update st of Inl err \<Rightarrow> Inl err | Inr st' \<Rightarrow> Inr (st', c))"
  by (simp add: add_indices.simps [of st c])

lemma ensure_w_at: "ensure_w (at_position b k v i) = at_position b k v i"
  by (simp add: ensure_w_def at_position_def)

lemma word_update_at:
  "0 \<le> i \<Longrightarrow> word_update (at_position b k v i) = Inr (at_position b k v (i + 2))"
  by (simp add: word_update_def ensure_w_at bump_w_def)
    (simp add: at_position_def py_int_str)

lemma add_indices_words_at:
  "\<forall>c\<in>set ws. raw_tag (tag c) = str ''w'' \<Longrightarrow> 0 \<le> i \<Longrightarrow>
     add_indices_list (at_position b k v i) ws =
       Inr (at_position b k v (i + 2 * int (length ws)), ws)"
proof (induction ws arbitrary: i)
  case Nil
  show ?case by simp
next
  case (Cons c ws)
  from Cons.prems have c: "raw_tag (tag c) = str ''w''"
    and ws: "\<forall>c\<in>set ws. raw_tag (tag c) = str ''w''" by simp_all
  have "add_indices (at_position b k v i) c = Inr (at_position b k v (i + 2), c)"
    using Cons.prems(2) by (simp add: add_indices_word [OF c] word_update_at)
  moreover have "add_indices_list (at_position b k v (i + 2)) ws =
      Inr (at_position b k v (i + 2 + 2 * int (length ws)), ws)"
    using Cons.IH [OF ws, of "i + 2"] Cons.prems(2) by simp
  ultimately show ?case by (simp add: algebra_simps)
qed

lemma add_indices_verse_at:
  assumes "raw_tag (tag d) = str ''divGen''" and "el_get d (str ''type'') = Some (str ''verse'')"
    and "el_get d (str ''n'') = Some (pre @ str ''V'' @ v')" and "86 \<notin> set pre"
  shows "add_indices (at_position b k v i) d = Inr (at_position b k v' 0, d)"
proof -
  have V: "str ''V'' = [86]" by (simp add: str_def)
  have f: "py_find [86] (pre @ 86 # v') = Some (length pre)"
    using py_find_char [OF assms(4), of v'] by simp
  have z: "py_str_int 0 = str ''0''"
    by (simp add: py_str_int_def digits_of.simps [of 0] str_def)
  have "divgen_update (at_position b k v i) d = Inr (at_position b k v' 0)"
    unfolding divgen_update_def assms(2,3)
    by (simp add: Let_def div_abbreviations_def V f at_position_def from_first_def z)
  then show ?thesis by (simp add: add_indices.simps [of _ d] assms(1))
qed

lemma add_indices_list_append:
  "add_indices_list st xs = Inr (st1, xs') \<Longrightarrow> add_indices_list st1 ys = Inr (st2, ys') \<Longrightarrow>
     add_indices_list st (xs @ ys) = Inr (st2, xs' @ ys')"
proof (induction xs arbitrary: st xs')
  case Nil
  then show ?case by simp
next
  case (Cons x xs)
  from Cons.prems(1) obtain sa x1 xs1 where x: "add_indices st x = Inr (sa, x1)"
    and r: "add_indices_list sa xs = Inr (st1, xs1)" and e: "xs' = x1 # xs1"
    unfolding add_indices_list_Cons by blast
  from Cons.IH [OF r Cons.prems(2)] x e show ?case by simp
qed

text \<open>The labels built from the indices before and after the lemma.\<close>

lemma app_label_words_at:
  assumes "0 \<le> i" and "1 \<le> m"
  shows "app_label (div_indices (at_position b k v i)) (at_position b k v (i + 2 * m)) e =
     Inr (str ''B'' @ b @ str ''K'' @ k @ str ''V'' @ v @ str ''U'' @ py_str_int (i + 2) @
          (if m = 1 then [] else str ''-'' @ str ''U'' @ py_str_int (i + 2 * m)))"
  unfolding app_label_def at_position_def using assms
  by (simp add: Let_def dict_eq_def bump_w_def py_int_str py_str_int_inj
      div_abbreviations_def from_first_def)

lemma app_label_verse_at:
  assumes "0 \<le> i" and "v' \<noteq> v"
  shows "app_label (div_indices (at_position b k v i)) (at_position b k v' j) e =
     Inr (str ''B'' @ b @ str ''K'' @ k @ str ''V'' @ v @ str ''U'' @ py_str_int (i + 2) @
          str ''-'' @ str ''V'' @ v' @ str ''U'' @ py_str_int j)"
  unfolding app_label_def at_position_def using assms(2)
  by (simp add: Let_def dict_eq_def bump_w_def py_int_str [OF assms(1)]
      div_abbreviations_def from_first_def)

lemma set_lem_children_same:
  assumes "xpath_desc ''lem'' e = lem # rest"
  shows "set_lem_children (children lem) e = e"
proof -
  from assms have f: "filter (\<lambda>d. tag d = tei ''lem'')
      (concat (map (\<lambda>c. c # descendants c) (children e))) = lem # rest"
    by (simp add: xpath_desc_def descendants_children [of e])
  from set_first_children_props(2) [OF f, of "children lem" "\<lambda>s. s" "\<lambda>s. s"]
  have "set_first_children_list (tei ''lem'') (children lem) (children e) = Some (children e)"
    by auto
  then show ?thesis by (cases e) (simp add: set_lem_children_def with_children_def)
qed

text \<open>
  C5. A labeler stands in book \<open>b\<close>, chapter \<open>k\<close>, verse \<open>v\<close> with its word index at \<open>i\<close>
  (the index of the last word read), and reads an apparatus; every word advances the
  index by 2, so the first word of the lemma has index \<open>i + 2\<close>. When the lemma is one
  word, the label is \<open>B\<close>\<open>b\<close>\<open>K\<close>\<open>k\<close>\<open>V\<close>\<open>v\<close>\<open>U\<close>\<open>i + 2\<close>. When it is \<open>m > 1\<close> words, the label
  ends in a range suffix of the word level only, \<open>-U\<close>\<open>i + 2m\<close>: the index of its last word.
  When a new verse \<open>v'\<close> starts inside the lemma, the verse is the first level at which
  the start and the end differ, and the suffix repeats the levels from there:
  \<open>-V\<close>\<open>v'\<close>\<open>U\<close>\<open>j\<close>, with \<open>j\<close> twice the number of words after the division. (86 is the code
  point of \<open>V\<close>: the index of a division is what follows the first \<open>V\<close> of its \<open>n\<close>.)
\<close>

theorem add_indices_citation_labels:
  assumes "0 \<le> i" and "raw_tag (tag e) = str ''app''" and "xpath_desc ''lem'' e = lem # rest"
    and "\<forall>c\<in>set ws. raw_tag (tag c) = str ''w''"
    and "\<forall>c\<in>set ws'. raw_tag (tag c) = str ''w''"
    and "raw_tag (tag d) = str ''divGen''" and "el_get d (str ''type'') = Some (str ''verse'')"
    and "el_get d (str ''n'') = Some (pre @ str ''V'' @ v')" and "86 \<notin> set pre" and "v' \<noteq> v"
  shows "(children lem = ws \<and> length ws = 1 \<longrightarrow>
            add_indices (at_position b k v i) e =
              Inr (at_position b k v (i + 2),
                   el_set e (str ''n'')
                     (str ''B'' @ b @ str ''K'' @ k @ str ''V'' @ v @ str ''U'' @ py_str_int (i + 2)))) \<and>
         (children lem = ws \<and> 1 < length ws \<longrightarrow>
            add_indices (at_position b k v i) e =
              Inr (at_position b k v (i + 2 * int (length ws)),
                   el_set e (str ''n'')
                     (str ''B'' @ b @ str ''K'' @ k @ str ''V'' @ v @ str ''U'' @ py_str_int (i + 2) @
                      str ''-'' @ str ''U'' @ py_str_int (i + 2 * int (length ws))))) \<and>
         (children lem = ws @ [d] @ ws' \<longrightarrow>
            add_indices (at_position b k v i) e =
              Inr (at_position b k v' (2 * int (length ws')),
                   el_set e (str ''n'')
                     (str ''B'' @ b @ str ''K'' @ k @ str ''V'' @ v @ str ''U'' @ py_str_int (i + 2) @
                      str ''-'' @ str ''V'' @ v' @ str ''U'' @ py_str_int (2 * int (length ws')))))"
proof -
  have app: "raw_tag (tag e) \<noteq> str ''divGen''" "raw_tag (tag e) \<noteq> str ''w''"
    "raw_tag (tag e) = str ''app''"
    using assms(2) by simp_all
  have same: "set_lem_children (children lem) e = e"
    using assms(3) by (rule set_lem_children_same)
  have run: "add_indices (at_position b k v i) e = Inr (st', el_set e (str ''n'') app_n)"
    if "add_indices_list (at_position b k v i) (children lem) = Inr (st', children lem)"
      and "app_label (div_indices (at_position b k v i)) st' e = Inr app_n"
    for st' app_n
    unfolding add_indices_app [OF app] ensure_w_at using assms(3) that same by auto
  have words: "add_indices_list (at_position b k v i) ws =
      Inr (at_position b k v (i + 2 * int (length ws)), ws)"
    using assms(4,1) by (rule add_indices_words_at)
  have one: "add_indices (at_position b k v i) e =
      Inr (at_position b k v (i + 2),
           el_set e (str ''n'')
             (str ''B'' @ b @ str ''K'' @ k @ str ''V'' @ v @ str ''U'' @ py_str_int (i + 2)))"
    if c: "children lem = ws" and l: "length ws = 1"
  proof (rule run)
    show "add_indices_list (at_position b k v i) (children lem) =
        Inr (at_position b k v (i + 2), children lem)"
      using words c l by simp
    show "app_label (div_indices (at_position b k v i)) (at_position b k v (i + 2)) e =
        Inr (str ''B'' @ b @ str ''K'' @ k @ str ''V'' @ v @ str ''U'' @ py_str_int (i + 2))"
      using app_label_words_at [OF assms(1), of 1 b k v e] by simp
  qed
  have many: "add_indices (at_position b k v i) e =
      Inr (at_position b k v (i + 2 * int (length ws)),
           el_set e (str ''n'')
             (str ''B'' @ b @ str ''K'' @ k @ str ''V'' @ v @ str ''U'' @ py_str_int (i + 2) @
              str ''-'' @ str ''U'' @ py_str_int (i + 2 * int (length ws))))"
    if c: "children lem = ws" and l: "1 < length ws"
  proof (rule run)
    show "add_indices_list (at_position b k v i) (children lem) =
        Inr (at_position b k v (i + 2 * int (length ws)), children lem)"
      using words c by simp
    show "app_label (div_indices (at_position b k v i))
        (at_position b k v (i + 2 * int (length ws))) e =
        Inr (str ''B'' @ b @ str ''K'' @ k @ str ''V'' @ v @ str ''U'' @ py_str_int (i + 2) @
             str ''-'' @ str ''U'' @ py_str_int (i + 2 * int (length ws)))"
      using app_label_words_at [OF assms(1), of "int (length ws)" b k v e] l by simp
  qed
  have cross: "add_indices (at_position b k v i) e =
      Inr (at_position b k v' (2 * int (length ws')),
           el_set e (str ''n'')
             (str ''B'' @ b @ str ''K'' @ k @ str ''V'' @ v @ str ''U'' @ py_str_int (i + 2) @
              str ''-'' @ str ''V'' @ v' @ str ''U'' @ py_str_int (2 * int (length ws'))))"
    if c: "children lem = ws @ [d] @ ws'"
  proof (rule run)
    have v: "add_indices_list (at_position b k v (i + 2 * int (length ws))) [d] =
        Inr (at_position b k v' 0, [d])"
      using add_indices_verse_at [OF assms(6,7,8,9)] by simp
    have w': "add_indices_list (at_position b k v' 0) ws' =
        Inr (at_position b k v' (2 * int (length ws')), ws')"
      using add_indices_words_at [OF assms(5), of 0 b k v'] by simp
    show "add_indices_list (at_position b k v i) (children lem) =
        Inr (at_position b k v' (2 * int (length ws')), children lem)"
      unfolding c
      by (rule add_indices_list_append [OF words add_indices_list_append [OF v w']])
    show "app_label (div_indices (at_position b k v i))
        (at_position b k v' (2 * int (length ws'))) e =
        Inr (str ''B'' @ b @ str ''K'' @ k @ str ''V'' @ v @ str ''U'' @ py_str_int (i + 2) @
             str ''-'' @ str ''V'' @ v' @ str ''U'' @ py_str_int (2 * int (length ws')))"
      by (rule app_label_verse_at [OF assms(1,10)])
  qed
  from one many cross show ?thesis by blast
qed

text \<open>
  After the divisions of book 04, chapter 21, verse 2 and two words, a new labeler
  stands at word index 4 of \<open>B04K21V2\<close>. There an apparatus with a lemma of one word is
  labelled \<open>B04K21V2U6\<close>, with a lemma of three words \<open>B04K21V2U6-U10\<close>, and with a lemma
  of one word, the division of verse 3 and one more word \<open>B04K21V2U6-V3U2\<close>.
\<close>

lemma example_position:
  "add_indices_list lab_init
     [divGen ''book'' ''B04'', divGen ''chapter'' ''B04K21'', divGen ''verse'' ''B04K21V2'',
      word ''a'', word ''b''] =
   Inr (at_position (str ''04'') (str ''21'') (str ''2'') 4,
     [divGen ''book'' ''B04'', divGen ''chapter'' ''B04K21'', divGen ''verse'' ''B04K21V2'',
      word ''a'', word ''b''])"
  by (simp add: lab_eval at_position_def py_str_int_def)

lemma example_labels:
  "py_str_int 6 = str ''6''" "py_str_int 10 = str ''10''" "py_str_int 2 = str ''2''"
  by (simp_all add: py_str_int_def digits_of.simps str_def)

theorem add_indices_citation_labels_witness:
  "add_indices (at_position (str ''04'') (str ''21'') (str ''2'') 4)
     (el ''app'' [el ''lem'' [word ''c''], el ''rdg'' [word ''x'']]) =
   Inr (at_position (str ''04'') (str ''21'') (str ''2'') 6,
        el_set (el ''app'' [el ''lem'' [word ''c''], el ''rdg'' [word ''x'']]) (str ''n'')
          (str ''B04K21V2U6'')) \<and>
   add_indices (at_position (str ''04'') (str ''21'') (str ''2'') 4)
     (el ''app'' [el ''lem'' [word ''c'', word ''d'', word ''e''], el ''rdg'' [word ''x'']]) =
   Inr (at_position (str ''04'') (str ''21'') (str ''2'') 10,
        el_set (el ''app'' [el ''lem'' [word ''c'', word ''d'', word ''e''], el ''rdg'' [word ''x'']])
          (str ''n'') (str ''B04K21V2U6-U10'')) \<and>
   add_indices (at_position (str ''04'') (str ''21'') (str ''2'') 4)
     (el ''app'' [el ''lem'' [word ''c'', divGen ''verse'' ''B04K21V3'', word ''d''],
                  el ''rdg'' [word ''x'']]) =
   Inr (at_position (str ''04'') (str ''21'') (str ''3'') 2,
        el_set (el ''app'' [el ''lem'' [word ''c'', divGen ''verse'' ''B04K21V3'', word ''d''],
                            el ''rdg'' [word ''x'']])
          (str ''n'') (str ''B04K21V2U6-V3U2''))"
proof -
  have d: "raw_tag (tag (divGen ''verse'' ''B04K21V3'')) = str ''divGen''"
    "el_get (divGen ''verse'' ''B04K21V3'') (str ''type'') = Some (str ''verse'')"
    "el_get (divGen ''verse'' ''B04K21V3'') (str ''n'') = Some (str ''B04K21'' @ str ''V'' @ str ''3'')"
    "86 \<notin> set (str ''B04K21'')" "str ''3'' \<noteq> str ''2''"
    by (simp_all add: divGen_def raw_tag_names el_get_def str_append) (simp add: str_def)
  have a: "raw_tag (tag (el ''app'' cs)) = str ''app''" for cs
    by (simp add: el_def raw_tag_names)
  have l: "xpath_desc ''lem'' (el ''app'' [el ''lem'' [word ''c''], el ''rdg'' [word ''x'']]) =
      [el ''lem'' [word ''c'']]"
    "xpath_desc ''lem''
       (el ''app'' [el ''lem'' [word ''c'', word ''d'', word ''e''], el ''rdg'' [word ''x'']]) =
      [el ''lem'' [word ''c'', word ''d'', word ''e'']]"
    "xpath_desc ''lem''
       (el ''app'' [el ''lem'' [word ''c'', divGen ''verse'' ''B04K21V3'', word ''d''],
                    el ''rdg'' [word ''x'']]) =
      [el ''lem'' [word ''c'', divGen ''verse'' ''B04K21V3'', word ''d'']]"
    by (simp_all add: xml_eval)
  have w: "\<forall>c\<in>set []. raw_tag (tag c) = str ''w''"
    "\<forall>c\<in>set [word ''c'']. raw_tag (tag c) = str ''w''"
    "\<forall>c\<in>set [word ''d'']. raw_tag (tag c) = str ''w''"
    "\<forall>c\<in>set [word ''c'', word ''d'', word ''e'']. raw_tag (tag c) = str ''w''"
    by (simp_all add: word_def raw_tag_names)
  have c: "children (el ''lem'' ls) = ls" for ls by (simp add: el_def)
  have i: "(0::int) \<le> 4" by simp
  have one: "add_indices (at_position (str ''04'') (str ''21'') (str ''2'') 4)
     (el ''app'' [el ''lem'' [word ''c''], el ''rdg'' [word ''x'']]) =
   Inr (at_position (str ''04'') (str ''21'') (str ''2'') 6,
        el_set (el ''app'' [el ''lem'' [word ''c''], el ''rdg'' [word ''x'']]) (str ''n'')
          (str ''B04K21V2U6''))"
    using add_indices_citation_labels [OF i a l(1) w(2) w(1) d,
        where b = "str ''04''" and k = "str ''21''"]
    by (simp add: c example_labels str_append)
  have three: "add_indices (at_position (str ''04'') (str ''21'') (str ''2'') 4)
     (el ''app'' [el ''lem'' [word ''c'', word ''d'', word ''e''], el ''rdg'' [word ''x'']]) =
   Inr (at_position (str ''04'') (str ''21'') (str ''2'') 10,
        el_set (el ''app'' [el ''lem'' [word ''c'', word ''d'', word ''e''], el ''rdg'' [word ''x'']])
          (str ''n'') (str ''B04K21V2U6-U10''))"
    using add_indices_citation_labels [OF i a l(2) w(4) w(1) d,
        where b = "str ''04''" and k = "str ''21''"]
    by (simp add: c example_labels str_append)
  have cross: "add_indices (at_position (str ''04'') (str ''21'') (str ''2'') 4)
     (el ''app'' [el ''lem'' [word ''c'', divGen ''verse'' ''B04K21V3'', word ''d''],
                  el ''rdg'' [word ''x'']]) =
   Inr (at_position (str ''04'') (str ''21'') (str ''3'') 2,
        el_set (el ''app'' [el ''lem'' [word ''c'', divGen ''verse'' ''B04K21V3'', word ''d''],
                            el ''rdg'' [word ''x'']])
          (str ''n'') (str ''B04K21V2U6-V3U2''))"
    using add_indices_citation_labels [OF i a l(3) w(2) w(3) d,
        where b = "str ''04''" and k = "str ''21''"]
    by (simp add: c example_labels str_append)
  from one three cross show ?thesis by simp
qed

end
